theory Spec2Isabelle
  imports Main "HOL-Library.Word"
begin

unbundle bit_operations_syntax

section \<open>The cache of src/cache.cpp\<close>

subsection \<open>Data\<close>

text \<open>
  \<^verbatim>\<open>struct CacheBlock { bool valid : 1; bool dirty : 1; uint32_t tag : 30; int data; }\<close>.
  The tag is a 30-bit bit-field: a store keeps the low 30 bits of the value, a read gives
  a number below \<open>2 ^ 30\<close>.
\<close>

record CacheBlock =
  valid :: bool
  dirty :: bool
  tag :: "30 word"
  data :: int

text \<open>
  The lines the code writes to \<open>cout\<close>, one constructor per output statement:
  line 54 (hit, with set and way), line 130 (hit in the victim cache), line 69 (miss),
  line 74 (dirty block found), line 149 (\<open>writeBack\<close>, with the tag printed) and
  line 109 (prefetch, with the next address).
\<close>

datatype event =
    EvHit nat nat
  | EvVictimHit
  | EvMiss
  | EvDirtyEvict
  | EvWriteBack "30 word"
  | EvPrefetch "32 word"

text \<open>
  The members of \<open>class Cache\<close>. The \<open>int\<close> members hold a cache geometry and are
  naturals here. \<open>victimCache\<close> is the \<open>std::queue\<close>, front first. \<open>cout\<close> is the
  output written so far.
\<close>

record Cache =
  cacheSize :: nat
  blockSize :: nat
  numSets :: nat
  ways :: nat
  sets :: "CacheBlock list list"
  pseudoLRU :: "8 word list list"
  victimCache :: "CacheBlock list"
  victimCacheSize :: nat
  setMask :: "32 word"
  tagMask :: "32 word"
  cout :: "event list"

text \<open>
  What \<open>accessCache\<close> cannot return a value for: the recursion budget of the model is
  used up (\<open>OutOfFuel\<close>), or the C++ would index a set at a way that does not exist or
  pop an empty queue (\<open>Undefined\<close>).
\<close>

datatype fault = OutOfFuel | Undefined

subsection \<open>Construction\<close>

text \<open>
  \<open>__builtin_ctz\<close> on a 32-bit value: the number of trailing zero bits. The C++ result
  is undefined at 0; the model gives 32 there.
\<close>

fun ctz_from :: "nat \<Rightarrow> nat \<Rightarrow> nat" where
  "ctz_from 0 x = 0"
| "ctz_from (Suc k) x = (if odd x then 0 else Suc (ctz_from k (x div 2)))"

definition ctz :: "nat \<Rightarrow> nat" where
  "ctz x = ctz_from 32 x"

definition emptyBlock :: CacheBlock where
  "emptyBlock = \<lparr>valid = False, dirty = False, tag = 0, data = 0\<rparr>"

text \<open>
  The constructor (lines 27 to 43). It has no check and no error path: it computes
  \<open>numSets\<close> by integer division and both masks from the trailing-zero counts.
\<close>

definition Cache_ctor :: "nat \<Rightarrow> nat \<Rightarrow> nat \<Rightarrow> nat \<Rightarrow> Cache" where
  "Cache_ctor sz block assoc victimSize =
     (let n = (sz div block) div assoc in
      \<lparr>cacheSize = sz, blockSize = block, numSets = n, ways = assoc,
       sets = replicate n (replicate assoc emptyBlock),
       pseudoLRU = replicate n (replicate assoc 0),
       victimCache = [],
       victimCacheSize = victimSize,
       setMask = push_bit (ctz n) 1 - 1,
       tagMask = NOT (push_bit (ctz n + ctz block) 1 - 1),
       cout = []\<rparr>)"

text \<open>
  The arguments at which the C++ constructor is defined: no division by zero, no
  \<open>__builtin_ctz(0)\<close>, and a size that fits the \<open>int\<close> parameter.
\<close>

definition ctor_defined :: "nat \<Rightarrow> nat \<Rightarrow> nat \<Rightarrow> bool" where
  "ctor_defined sz block assoc \<longleftrightarrow>
     0 < block \<and> 0 < assoc \<and> 0 < (sz div block) div assoc \<and> sz < 2 ^ 31"

subsection \<open>Address decomposition\<close>

definition index_of :: "Cache \<Rightarrow> 32 word \<Rightarrow> nat" where
  "index_of c a = unat (drop_bit (ctz (blockSize c)) a AND setMask c)"

definition tag_of :: "Cache \<Rightarrow> 32 word \<Rightarrow> 32 word" where
  "tag_of c a = a AND tagMask c"

subsection \<open>Replacement state\<close>

text \<open>\<open>getPseudoLRU\<close>: \<open>std::find\<close> for 0; the result is the size when there is none.\<close>

definition getPseudoLRU :: "Cache \<Rightarrow> nat \<Rightarrow> nat" where
  "getPseudoLRU c setIndex = length (takeWhile (\<lambda>x. x \<noteq> 0) (pseudoLRU c ! setIndex))"

text \<open>
  The loop body of \<open>updatePseudoLRU\<close>: the counter is promoted to \<open>int\<close>, incremented,
  capped with \<open>min(255, _)\<close> and stored back into the \<open>uint8_t\<close>.
\<close>

definition bump :: "nat \<Rightarrow> 8 word list \<Rightarrow> nat \<Rightarrow> 8 word" where
  "bump usedWay row i =
     (if i \<noteq> usedWay then word_of_nat (min 255 (unat (row ! i) + 1)) else 0)"

definition updateRow :: "nat \<Rightarrow> nat \<Rightarrow> 8 word list \<Rightarrow> 8 word list" where
  "updateRow w usedWay row = fold (\<lambda>i r. r[i := bump usedWay r i]) [0..<w] row"

definition updatePseudoLRU :: "Cache \<Rightarrow> nat \<Rightarrow> nat \<Rightarrow> Cache" where
  "updatePseudoLRU c setIndex usedWay =
     c\<lparr>pseudoLRU := (pseudoLRU c)[setIndex := updateRow (ways c) usedWay (pseudoLRU c ! setIndex)]\<rparr>"

subsection \<open>Looking a tag up in a set\<close>

text \<open>
  The scan of \<open>predictWay\<close> and of \<open>prefetchNextLine\<close>: the first way whose line is
  valid and whose 30-bit tag, read back as an unsigned number, equals the 32-bit tag.
\<close>

definition tagMatch :: "CacheBlock \<Rightarrow> 32 word \<Rightarrow> bool" where
  "tagMatch b t \<longleftrightarrow> valid b \<and> ucast (tag b) = t"

fun firstMatch :: "CacheBlock list \<Rightarrow> 32 word \<Rightarrow> nat option" where
  "firstMatch [] t = None"
| "firstMatch (b # bs) t = (if tagMatch b t then Some 0 else map_option Suc (firstMatch bs t))"

definition predictWay :: "Cache \<Rightarrow> nat \<Rightarrow> 32 word \<Rightarrow> nat" where
  "predictWay c setIndex t =
     (case firstMatch (take (ways c) (sets c ! setIndex)) t of Some i \<Rightarrow> i | None \<Rightarrow> 0)"

definition isAlreadyCached :: "Cache \<Rightarrow> nat \<Rightarrow> 32 word \<Rightarrow> bool" where
  "isAlreadyCached c setIndex t \<longleftrightarrow> firstMatch (take (ways c) (sets c ! setIndex)) t \<noteq> None"

subsection \<open>The victim cache\<close>

text \<open>
  \<open>checkVictimCache\<close>: at most \<open>size()\<close> rounds, each popping the front and pushing it
  at the back; a round whose block has the tag stops the loop after the push.
\<close>

fun victimScan :: "nat \<Rightarrow> CacheBlock list \<Rightarrow> 32 word \<Rightarrow> bool \<times> CacheBlock list" where
  "victimScan 0 q t = (False, q)"
| "victimScan (Suc i) [] t = (False, [])"
| "victimScan (Suc i) (b # rest) t =
     (if ucast (tag b) = t then (True, rest @ [b]) else victimScan i (rest @ [b]) t)"

definition checkVictimCache :: "Cache \<Rightarrow> 32 word \<Rightarrow> bool \<times> Cache" where
  "checkVictimCache c t =
     (case victimScan (length (victimCache c)) (victimCache c) t of
        (True, q) \<Rightarrow> (True, c\<lparr>victimCache := q, cout := cout c @ [EvVictimHit]\<rparr>)
      | (False, q) \<Rightarrow> (False, c\<lparr>victimCache := q\<rparr>))"

definition addToVictimCache :: "Cache \<Rightarrow> CacheBlock \<Rightarrow> fault + Cache" where
  "addToVictimCache c b =
     (if length (victimCache c) \<ge> victimCacheSize c
      then (case victimCache c of
              [] \<Rightarrow> Inl Undefined
            | _ # q \<Rightarrow> Inr (c\<lparr>victimCache := q @ [b]\<rparr>))
      else Inr (c\<lparr>victimCache := victimCache c @ [b]\<rparr>))"

subsection \<open>Filling a way\<close>

definition setBlock :: "Cache \<Rightarrow> nat \<Rightarrow> nat \<Rightarrow> CacheBlock \<Rightarrow> Cache" where
  "setBlock c setIndex w b = c\<lparr>sets := (sets c)[setIndex := (sets c ! setIndex)[w := b]]\<rparr>"

definition writeBack :: "Cache \<Rightarrow> nat \<Rightarrow> nat \<Rightarrow> Cache" where
  "writeBack c setIndex w =
     (let b = sets c ! setIndex ! w in
      setBlock (c\<lparr>cout := cout c @ [EvWriteBack (tag b)]\<rparr>) setIndex w (b\<lparr>dirty := False\<rparr>))"

definition insertBlockToCache :: "Cache \<Rightarrow> nat \<Rightarrow> CacheBlock \<Rightarrow> bool \<Rightarrow> fault + Cache" where
  "insertBlockToCache c setIndex b isWrite =
     (let replaceWay = getPseudoLRU c setIndex in
      if replaceWay \<ge> ways c then Inl Undefined
      else Inr (updatePseudoLRU (setBlock c setIndex replaceWay (b\<lparr>dirty := isWrite\<rparr>))
                  setIndex replaceWay))"

text \<open>Lines 54 to 56: the hit branch of \<open>accessCache\<close> up to the prefetch.\<close>

definition hitUpdate :: "Cache \<Rightarrow> nat \<Rightarrow> nat \<Rightarrow> bool \<Rightarrow> Cache" where
  "hitUpdate c setIndex w isWrite =
     (let c1 = c\<lparr>cout := cout c @ [EvHit setIndex w]\<rparr>;
          c2 = (if isWrite then setBlock c1 setIndex w ((sets c1 ! setIndex ! w)\<lparr>dirty := True\<rparr>)
                else c1)
      in updatePseudoLRU c2 setIndex w)"

text \<open>
  Lines 63 and 64: the block at the front of the queue, as \<open>checkVictimCache\<close> left
  it, goes into the set, and the front is popped.
\<close>

definition victimFill :: "Cache \<Rightarrow> nat \<Rightarrow> bool \<Rightarrow> fault + Cache" where
  "victimFill c setIndex isWrite =
     (case victimCache c of
        [] \<Rightarrow> Inl Undefined
      | b # q \<Rightarrow>
          (case insertBlockToCache c setIndex b isWrite of
             Inl e \<Rightarrow> Inl e
           | Inr c1 \<Rightarrow> Inr (c1\<lparr>victimCache := q\<rparr>)))"

text \<open>Lines 69 to 87: the miss branch of \<open>accessCache\<close> up to the prefetch.\<close>

definition missFill :: "Cache \<Rightarrow> nat \<Rightarrow> 32 word \<Rightarrow> bool \<Rightarrow> fault + Cache" where
  "missFill c setIndex t isWrite =
     (let c1 = c\<lparr>cout := cout c @ [EvMiss]\<rparr>;
          replaceWay = getPseudoLRU c1 setIndex
      in if replaceWay \<ge> ways c1 then Inl Undefined
         else
           let old = sets c1 ! setIndex ! replaceWay;
               c2 = (if valid old \<and> dirty old
                     then writeBack (c1\<lparr>cout := cout c1 @ [EvDirtyEvict]\<rparr>) setIndex replaceWay
                     else c1);
               cur = sets c2 ! setIndex ! replaceWay
           in case (if valid cur then addToVictimCache c2 cur else Inr c2) of
                Inl e \<Rightarrow> Inl e
              | Inr c3 \<Rightarrow>
                  Inr (updatePseudoLRU
                         (setBlock c3 setIndex replaceWay
                            (cur\<lparr>valid := True, tag := ucast t, dirty := isWrite\<rparr>))
                         setIndex replaceWay))"

subsection \<open>Access and prefetch\<close>

text \<open>
  \<open>accessCache\<close> and \<open>prefetchNextLine\<close> call each other with no bound in the C++.
  The model counts the nested calls of \<open>accessCache\<close>: the first argument is the number
  of calls still allowed, and \<open>Inl OutOfFuel\<close> is the answer when it is used up.
\<close>

fun accessCache :: "nat \<Rightarrow> Cache \<Rightarrow> 32 word \<Rightarrow> bool \<Rightarrow> fault + (bool \<times> Cache)"
  and prefetchNextLine :: "nat \<Rightarrow> Cache \<Rightarrow> 32 word \<Rightarrow> fault + Cache" where
  "accessCache 0 c address isWrite = Inl OutOfFuel"
| "accessCache (Suc n) c address isWrite =
     (let setIndex = index_of c address;
          t = tag_of c address;
          predictedWay = predictWay c setIndex t
      in if tagMatch (sets c ! setIndex ! predictedWay) t
         then (case prefetchNextLine n (hitUpdate c setIndex predictedWay isWrite) address of
                 Inl e \<Rightarrow> Inl e
               | Inr c1 \<Rightarrow> Inr (True, c1))
         else (case checkVictimCache c t of
                 (True, c1) \<Rightarrow>
                   (case victimFill c1 setIndex isWrite of
                      Inl e \<Rightarrow> Inl e
                    | Inr c2 \<Rightarrow> Inr (True, c2))
               | (False, c1) \<Rightarrow>
                   (case missFill c1 setIndex t isWrite of
                      Inl e \<Rightarrow> Inl e
                    | Inr c2 \<Rightarrow>
                        (case prefetchNextLine n c2 address of
                           Inl e \<Rightarrow> Inl e
                         | Inr c3 \<Rightarrow> Inr (False, c3)))))"
| "prefetchNextLine n c address =
     (let nextAddress = address + of_nat (blockSize c);
          setIndex = index_of c nextAddress;
          t = tag_of c nextAddress
      in if isAlreadyCached c setIndex t then Inr c
         else (case accessCache n (c\<lparr>cout := cout c @ [EvPrefetch nextAddress]\<rparr>) nextAddress False of
                 Inl e \<Rightarrow> Inl e
               | Inr (_, c1) \<Rightarrow> Inr c1))"

declare accessCache.simps(2) [simp del]
declare prefetchNextLine.simps [simp del]

subsection \<open>Reachable states\<close>

text \<open>
  The states a cache can be in: the one the constructor builds, and every state in which
  a call of \<open>accessCache\<close> returns.
\<close>

inductive reachable :: "Cache \<Rightarrow> Cache \<Rightarrow> bool" for c0 :: Cache where
  initial: "reachable c0 c0"
| access: "reachable c0 c \<Longrightarrow> accessCache n c a w = Inr (h, c') \<Longrightarrow> reachable c0 c'"

text \<open>
  What the constructor establishes and every access keeps: the dimensions of the two
  tables, a set mask below \<open>numSets\<close>, a zero in the first counter of every set, and
  no valid line in any way but the first.
\<close>

definition cacheInv :: "Cache \<Rightarrow> bool" where
  "cacheInv c \<longleftrightarrow>
     length (sets c) = numSets c \<and> length (pseudoLRU c) = numSets c \<and> 0 < ways c
     \<and> unat (setMask c) < numSets c
     \<and> (\<forall>s < numSets c.
           length (sets c ! s) = ways c \<and> length (pseudoLRU c ! s) = ways c
           \<and> pseudoLRU c ! s ! 0 = 0
           \<and> (\<forall>w < ways c. 0 < w \<longrightarrow> \<not> valid (sets c ! s ! w)))"

subsection \<open>Concrete runs\<close>

text \<open>
  A one-set, two-way cache with blocks of \<open>2 ^ 29\<close> bytes and two victim entries,
  after a read of address 0.
\<close>

definition twoWayAfter :: Cache where
  "twoWayAfter =
    \<lparr>cacheSize = 1073741824, blockSize = 536870912, numSets = 1, ways = 2,
      sets = [[\<lparr>valid = True, dirty = False, tag = 536870912, data = 0\<rparr>,
               \<lparr>valid = False, dirty = False, tag = 0, data = 0\<rparr>]],
      pseudoLRU = [[0, 9]],
      victimCache = [\<lparr>valid = True, dirty = False, tag = 0, data = 0\<rparr>],
      victimCacheSize = 2, setMask = 0, tagMask = 3758096384,
      cout = [EvMiss, EvPrefetch 536870912, EvMiss, EvPrefetch 1073741824,
              EvMiss, EvPrefetch 1610612736, EvMiss, EvPrefetch 2147483648,
              EvMiss, EvPrefetch 2684354560, EvMiss, EvPrefetch 3221225472,
              EvMiss, EvPrefetch 3758096384, EvMiss, EvPrefetch 0, EvVictimHit]\<rparr>"

text \<open>
  A power of two, as the constructor could have tested it with its own trailing-zero count.
\<close>

definition isPowerOfTwo :: "nat \<Rightarrow> bool" where
  "isPowerOfTwo n \<longleftrightarrow> 0 < n \<and> 2 ^ ctz n = n"

text \<open>A one-set, one-way cache with blocks of \<open>2 ^ 29\<close> bytes and three victim entries,
  after a read of \<open>0x80000000\<close>.\<close>

definition oneWayA1 :: Cache where
  "oneWayA1 =
    \<lparr>cacheSize = 536870912, blockSize = 536870912, numSets = 1, ways = 1,
      sets = [[\<lparr>valid = True, dirty = False, tag = 536870912, data = 0\<rparr>]],
      pseudoLRU = [[0]],
      victimCache = [\<lparr>valid = True, dirty = False, tag = 0, data = 0\<rparr>,
        \<lparr>valid = True, dirty = False, tag = 0, data = 0\<rparr>],
      victimCacheSize = 3, setMask = 0, tagMask = 3758096384,
      cout = [EvMiss, EvPrefetch 2684354560, EvMiss, EvPrefetch 3221225472, EvMiss,
              EvPrefetch 3758096384, EvMiss, EvPrefetch 0, EvVictimHit]\<rparr>"

text \<open>The same cache after a further read of \<open>0xE0000000\<close>.\<close>

definition oneWayA2 :: Cache where
  "oneWayA2 =
    \<lparr>cacheSize = 536870912, blockSize = 536870912, numSets = 1, ways = 1,
      sets = [[\<lparr>valid = True, dirty = False, tag = 0, data = 0\<rparr>]],
      pseudoLRU = [[0]],
      victimCache = [\<lparr>valid = True, dirty = False, tag = 536870912, data = 0\<rparr>,
        \<lparr>valid = True, dirty = False, tag = 0, data = 0\<rparr>],
      victimCacheSize = 3, setMask = 0, tagMask = 3758096384,
      cout = [EvMiss, EvPrefetch 2684354560, EvMiss, EvPrefetch 3221225472, EvMiss,
              EvPrefetch 3758096384, EvMiss, EvPrefetch 0, EvVictimHit, EvMiss,
              EvPrefetch 0, EvVictimHit]\<rparr>"

text \<open>That state after a read of \<open>0x20000000\<close>.\<close>

definition oneWayA3 :: Cache where
  "oneWayA3 =
    \<lparr>cacheSize = 536870912, blockSize = 536870912, numSets = 1, ways = 1,
      sets = [[\<lparr>valid = True, dirty = False, tag = 0, data = 0\<rparr>]],
      pseudoLRU = [[0]],
      victimCache = [\<lparr>valid = True, dirty = False, tag = 536870912, data = 0\<rparr>],
      victimCacheSize = 3, setMask = 0, tagMask = 3758096384,
      cout = [EvMiss, EvPrefetch 2684354560, EvMiss, EvPrefetch 3221225472, EvMiss,
              EvPrefetch 3758096384, EvMiss, EvPrefetch 0, EvVictimHit, EvMiss,
              EvPrefetch 0, EvVictimHit, EvVictimHit]\<rparr>"

text \<open>The state \<open>oneWayA2\<close> after a write of \<open>0x20000000\<close> instead.\<close>

definition oneWayA3w :: Cache where
  "oneWayA3w =
    \<lparr>cacheSize = 536870912, blockSize = 536870912, numSets = 1, ways = 1,
      sets = [[\<lparr>valid = True, dirty = True, tag = 0, data = 0\<rparr>]],
      pseudoLRU = [[0]],
      victimCache = [\<lparr>valid = True, dirty = False, tag = 536870912, data = 0\<rparr>],
      victimCacheSize = 3, setMask = 0, tagMask = 3758096384,
      cout = [EvMiss, EvPrefetch 2684354560, EvMiss, EvPrefetch 3221225472, EvMiss,
              EvPrefetch 3758096384, EvMiss, EvPrefetch 0, EvVictimHit, EvMiss,
              EvPrefetch 0, EvVictimHit, EvVictimHit]\<rparr>"

text \<open>The state \<open>oneWayA3w\<close> after a read of \<open>0x20000000\<close>.\<close>

definition oneWayA4 :: Cache where
  "oneWayA4 =
    \<lparr>cacheSize = 536870912, blockSize = 536870912, numSets = 1, ways = 1,
      sets = [[\<lparr>valid = True, dirty = False, tag = 536870912, data = 0\<rparr>]],
      pseudoLRU = [[0]],
      victimCache = [],
      victimCacheSize = 3, setMask = 0, tagMask = 3758096384,
      cout = [EvMiss, EvPrefetch 2684354560, EvMiss, EvPrefetch 3221225472, EvMiss,
              EvPrefetch 3758096384, EvMiss, EvPrefetch 0, EvVictimHit, EvMiss,
              EvPrefetch 0, EvVictimHit, EvVictimHit, EvVictimHit]\<rparr>"

text \<open>A one-set, one-way cache with one block of \<open>2 ^ 30\<close> bytes and one victim entry,
  after a read of \<open>0xC0000000\<close>.\<close>

definition bigBlockB1 :: Cache where
  "bigBlockB1 =
    \<lparr>cacheSize = 1073741824, blockSize = 1073741824, numSets = 1, ways = 1,
      sets = [[\<lparr>valid = True, dirty = False, tag = 0, data = 0\<rparr>]],
      pseudoLRU = [[0]],
      victimCache = [],
      victimCacheSize = 1, setMask = 0, tagMask = 3221225472,
      cout = [EvMiss]\<rparr>"

text \<open>The same cache after a second read of \<open>0xC0000000\<close>.\<close>

definition bigBlockB2 :: Cache where
  "bigBlockB2 =
    \<lparr>cacheSize = 1073741824, blockSize = 1073741824, numSets = 1, ways = 1,
      sets = [[\<lparr>valid = True, dirty = False, tag = 0, data = 0\<rparr>]],
      pseudoLRU = [[0]],
      victimCache = [\<lparr>valid = True, dirty = False, tag = 0, data = 0\<rparr>],
      victimCacheSize = 1, setMask = 0, tagMask = 3221225472,
      cout = [EvMiss, EvMiss]\<rparr>"

text \<open>A two-set, one-way cache with blocks of \<open>2 ^ 28\<close> bytes and eleven victim entries,
  after a read of \<open>0x30000000\<close>.\<close>

definition twoSetD1 :: Cache where
  "twoSetD1 =
    \<lparr>cacheSize = 536870912, blockSize = 268435456, numSets = 2, ways = 1,
      sets = [[\<lparr>valid = True, dirty = False, tag = 0, data = 0\<rparr>],
              [\<lparr>valid = True, dirty = False, tag = 536870912, data = 0\<rparr>]],
      pseudoLRU = [[0], [0]],
      victimCache = [\<lparr>valid = True, dirty = False, tag = 536870912, data = 0\<rparr>,
        \<lparr>valid = True, dirty = False, tag = 536870912, data = 0\<rparr>,
        \<lparr>valid = True, dirty = False, tag = 0, data = 0\<rparr>,
        \<lparr>valid = True, dirty = False, tag = 0, data = 0\<rparr>,
        \<lparr>valid = True, dirty = False, tag = 536870912, data = 0\<rparr>,
        \<lparr>valid = True, dirty = False, tag = 536870912, data = 0\<rparr>,
        \<lparr>valid = True, dirty = False, tag = 0, data = 0\<rparr>,
        \<lparr>valid = True, dirty = False, tag = 0, data = 0\<rparr>,
        \<lparr>valid = True, dirty = False, tag = 536870912, data = 0\<rparr>,
        \<lparr>valid = True, dirty = False, tag = 0, data = 0\<rparr>],
      victimCacheSize = 11, setMask = 1, tagMask = 3758096384,
      cout = [EvMiss, EvPrefetch 1073741824, EvMiss, EvPrefetch 1342177280, EvMiss,
              EvPrefetch 1610612736, EvMiss, EvPrefetch 1879048192, EvMiss,
              EvPrefetch 2147483648, EvMiss, EvPrefetch 2415919104, EvMiss,
              EvPrefetch 2684354560, EvMiss, EvPrefetch 2952790016, EvMiss,
              EvPrefetch 3221225472, EvMiss, EvPrefetch 3489660928, EvMiss,
              EvPrefetch 3758096384, EvMiss, EvPrefetch 4026531840, EvMiss,
              EvPrefetch 0, EvVictimHit]\<rparr>"

text \<open>The same cache after a further read of \<open>0x90000000\<close>.\<close>

definition twoSetD2 :: Cache where
  "twoSetD2 =
    \<lparr>cacheSize = 536870912, blockSize = 268435456, numSets = 2, ways = 1,
      sets = [[\<lparr>valid = True, dirty = False, tag = 0, data = 0\<rparr>],
              [\<lparr>valid = True, dirty = False, tag = 536870912, data = 0\<rparr>]],
      pseudoLRU = [[0], [0]],
      victimCache = [\<lparr>valid = True, dirty = False, tag = 536870912, data = 0\<rparr>,
        \<lparr>valid = True, dirty = False, tag = 0, data = 0\<rparr>,
        \<lparr>valid = True, dirty = False, tag = 536870912, data = 0\<rparr>,
        \<lparr>valid = True, dirty = False, tag = 0, data = 0\<rparr>,
        \<lparr>valid = True, dirty = False, tag = 0, data = 0\<rparr>,
        \<lparr>valid = True, dirty = False, tag = 536870912, data = 0\<rparr>,
        \<lparr>valid = True, dirty = False, tag = 536870912, data = 0\<rparr>,
        \<lparr>valid = True, dirty = False, tag = 0, data = 0\<rparr>,
        \<lparr>valid = True, dirty = False, tag = 0, data = 0\<rparr>,
        \<lparr>valid = True, dirty = False, tag = 0, data = 0\<rparr>],
      victimCacheSize = 11, setMask = 1, tagMask = 3758096384,
      cout = [EvMiss, EvPrefetch 1073741824, EvMiss, EvPrefetch 1342177280, EvMiss,
              EvPrefetch 1610612736, EvMiss, EvPrefetch 1879048192, EvMiss,
              EvPrefetch 2147483648, EvMiss, EvPrefetch 2415919104, EvMiss,
              EvPrefetch 2684354560, EvMiss, EvPrefetch 2952790016, EvMiss,
              EvPrefetch 3221225472, EvMiss, EvPrefetch 3489660928, EvMiss,
              EvPrefetch 3758096384, EvMiss, EvPrefetch 4026531840, EvMiss,
              EvPrefetch 0, EvVictimHit, EvMiss, EvPrefetch 2684354560, EvMiss,
              EvPrefetch 2952790016, EvMiss, EvPrefetch 3221225472, EvMiss,
              EvPrefetch 3489660928, EvMiss, EvPrefetch 3758096384, EvMiss,
              EvPrefetch 4026531840, EvMiss, EvPrefetch 0, EvVictimHit]\<rparr>"

text \<open>The same cache after a further read of \<open>0x20000000\<close>.\<close>

definition twoSetD3 :: Cache where
  "twoSetD3 =
    \<lparr>cacheSize = 536870912, blockSize = 268435456, numSets = 2, ways = 1,
      sets = [[\<lparr>valid = True, dirty = False, tag = 0, data = 0\<rparr>],
              [\<lparr>valid = True, dirty = False, tag = 536870912, data = 0\<rparr>]],
      pseudoLRU = [[0], [0]],
      victimCache = [\<lparr>valid = True, dirty = False, tag = 536870912, data = 0\<rparr>,
        \<lparr>valid = True, dirty = False, tag = 0, data = 0\<rparr>,
        \<lparr>valid = True, dirty = False, tag = 0, data = 0\<rparr>,
        \<lparr>valid = True, dirty = False, tag = 536870912, data = 0\<rparr>,
        \<lparr>valid = True, dirty = False, tag = 536870912, data = 0\<rparr>,
        \<lparr>valid = True, dirty = False, tag = 0, data = 0\<rparr>,
        \<lparr>valid = True, dirty = False, tag = 0, data = 0\<rparr>,
        \<lparr>valid = True, dirty = False, tag = 0, data = 0\<rparr>,
        \<lparr>valid = True, dirty = False, tag = 536870912, data = 0\<rparr>],
      victimCacheSize = 11, setMask = 1, tagMask = 3758096384,
      cout = [EvMiss, EvPrefetch 1073741824, EvMiss, EvPrefetch 1342177280, EvMiss,
              EvPrefetch 1610612736, EvMiss, EvPrefetch 1879048192, EvMiss,
              EvPrefetch 2147483648, EvMiss, EvPrefetch 2415919104, EvMiss,
              EvPrefetch 2684354560, EvMiss, EvPrefetch 2952790016, EvMiss,
              EvPrefetch 3221225472, EvMiss, EvPrefetch 3489660928, EvMiss,
              EvPrefetch 3758096384, EvMiss, EvPrefetch 4026531840, EvMiss,
              EvPrefetch 0, EvVictimHit, EvMiss, EvPrefetch 2684354560, EvMiss,
              EvPrefetch 2952790016, EvMiss, EvPrefetch 3221225472, EvMiss,
              EvPrefetch 3489660928, EvMiss, EvPrefetch 3758096384, EvMiss,
              EvPrefetch 4026531840, EvMiss, EvPrefetch 0, EvVictimHit, EvVictimHit]\<rparr>"

text \<open>The state \<open>twoWayAfter\<close> after a second read of address 0.\<close>

definition twoWayVictimHit :: Cache where
  "twoWayVictimHit =
    \<lparr>cacheSize = 1073741824, blockSize = 536870912, numSets = 1, ways = 2,
      sets = [[\<lparr>valid = True, dirty = False, tag = 0, data = 0\<rparr>,
               \<lparr>valid = False, dirty = False, tag = 0, data = 0\<rparr>]],
      pseudoLRU = [[0, 10]],
      victimCache = [],
      victimCacheSize = 2, setMask = 0, tagMask = 3758096384,
      cout = [EvMiss, EvPrefetch 536870912, EvMiss, EvPrefetch 1073741824, EvMiss,
              EvPrefetch 1610612736, EvMiss, EvPrefetch 2147483648, EvMiss,
              EvPrefetch 2684354560, EvMiss, EvPrefetch 3221225472, EvMiss,
              EvPrefetch 3758096384, EvMiss, EvPrefetch 0, EvVictimHit, EvVictimHit]\<rparr>"

text \<open>A two-set, one-way cache with blocks of \<open>2 ^ 29\<close> bytes and one victim entry,
  after a read of \<open>0xE0000000\<close>.\<close>

definition twoSetE1 :: Cache where
  "twoSetE1 =
    \<lparr>cacheSize = 1073741824, blockSize = 536870912, numSets = 2, ways = 1,
      sets = [[\<lparr>valid = True, dirty = False, tag = 0, data = 0\<rparr>],
              [\<lparr>valid = True, dirty = False, tag = 0, data = 0\<rparr>]],
      pseudoLRU = [[0], [0]],
      victimCache = [],
      victimCacheSize = 1, setMask = 1, tagMask = 3221225472,
      cout = [EvMiss, EvPrefetch 0, EvMiss]\<rparr>"

text \<open>The same cache after a further read of address 0.\<close>

definition twoSetE2 :: Cache where
  "twoSetE2 =
    \<lparr>cacheSize = 1073741824, blockSize = 536870912, numSets = 2, ways = 1,
      sets = [[\<lparr>valid = True, dirty = False, tag = 0, data = 0\<rparr>],
              [\<lparr>valid = True, dirty = False, tag = 0, data = 0\<rparr>]],
      pseudoLRU = [[0], [0]],
      victimCache = [],
      victimCacheSize = 1, setMask = 1, tagMask = 3221225472,
      cout = [EvMiss, EvPrefetch 0, EvMiss, EvHit 0 0]\<rparr>"

subsection \<open>The first-level cache of the driver\<close>

text \<open>\<open>MultiLevelCache\<close> builds its first level as \<open>l1Cache(32 * 1024, 64, 8, 8)\<close>.\<close>

definition l1Cache :: Cache where
  "l1Cache = Cache_ctor 32768 64 8 8"

text \<open>The constants of that cache, which no access changes.\<close>

definition isL1 :: "Cache \<Rightarrow> bool" where
  "isL1 c \<longleftrightarrow> blockSize c = 64 \<and> numSets c = 64 \<and> ways c = 8 \<and> victimCacheSize c = 8
     \<and> setMask c = 63 \<and> tagMask c = - 4096"

definition sameGeometry :: "Cache \<Rightarrow> Cache \<Rightarrow> bool" where
  "sameGeometry c c' \<longleftrightarrow> blockSize c' = blockSize c \<and> numSets c' = numSets c \<and> ways c' = ways c
     \<and> victimCacheSize c' = victimCacheSize c \<and> setMask c' = setMask c \<and> tagMask c' = tagMask c"

text \<open>
  The state of that cache when a chain of prefetches arrives at address \<open>a\<close>. The sets
  below the set of \<open>a\<close> hold the lines of the current pass over the sets, with the tag of
  \<open>a\<close>; the other sets hold lines of the pass before, one tag step (4096) lower, or
  nothing. The victim cache holds lines of the pass before, preceded by lines of the pass
  before that; the last disjunction counts them, so that the older lines are gone when the
  pass ends. All tags are compared as the 30-bit field stores them.
\<close>

definition cascadeInv :: "Cache \<Rightarrow> 32 word \<Rightarrow> bool" where
  "cascadeInv c a \<longleftrightarrow>
     isL1 c \<and> cacheInv c
     \<and> (\<forall>s < 64. valid (sets c ! s ! 0) \<longrightarrow>
           tag (sets c ! s ! 0)
             = ucast (if s < index_of c a then tag_of c a else tag_of c a - 4096))
     \<and> length (victimCache c) \<le> 8
     \<and> (\<exists>old new. victimCache c = old @ new
           \<and> (\<forall>b \<in> set old. tag b = ucast (tag_of c a - 8192))
           \<and> (\<forall>b \<in> set new. tag b = ucast (tag_of c a - 4096))
           \<and> ((victimCache c = [] \<and> (\<forall>s < 64. index_of c a \<le> s \<longrightarrow> \<not> valid (sets c ! s ! 0)))
                \<or> ((\<forall>s < index_of c a. valid (sets c ! s ! 0))
                    \<and> (old = [] \<or> ((\<forall>s < 64. valid (sets c ! s ! 0))
                                    \<and> min (index_of c a) 8 \<le> length new)))))"

section \<open>Properties\<close>

subsection \<open>Trailing zeros and the replacement counters\<close>

lemma ctz_from_pow2: "k < n \<Longrightarrow> ctz_from n (2 ^ k) = k"
proof (induction n arbitrary: k)
  case 0
  then show ?case by simp
next
  case (Suc n)
  show ?case
  proof (cases k)
    case 0
    then show ?thesis by simp
  next
    case (Suc k')
    with Suc.prems have "k' < n" by simp
    then have "ctz_from n (2 ^ k') = k'" by (rule Suc.IH)
    with Suc show ?thesis by simp
  qed
qed

lemma ctz_pow2: "k < 32 \<Longrightarrow> ctz (2 ^ k) = k"
  by (simp add: ctz_def ctz_from_pow2)

lemma ctz_from_le: "0 < x \<Longrightarrow> 2 ^ ctz_from n x \<le> x"
proof (induction n arbitrary: x)
  case 0
  then show ?case by simp
next
  case (Suc n)
  show ?case
  proof (cases "odd x")
    case True
    with Suc.prems show ?thesis by simp
  next
    case False
    then have "0 < x div 2" using Suc.prems by presburger
    then have "2 ^ ctz_from n (x div 2) \<le> x div 2" by (rule Suc.IH)
    with False show ?thesis by simp
  qed
qed

lemma ctz_le: "0 < x \<Longrightarrow> 2 ^ ctz x \<le> x"
  by (simp add: ctz_def ctz_from_le)

lemma fold_bump:
  "n \<le> length row \<Longrightarrow>
   fold (\<lambda>i r. r[i := bump u r i]) [0..<n] row = map (bump u row) [0..<n] @ drop n row"
proof (induction n)
  case 0
  then show ?case by simp
next
  case (Suc n)
  then have IH: "fold (\<lambda>i r. r[i := bump u r i]) [0..<n] row = map (bump u row) [0..<n] @ drop n row"
    and n: "n < length row" by simp_all
  have rd: "(map (bump u row) [0..<n] @ drop n row) ! n = row ! n"
    using n by (simp add: nth_append)
  have "bump u (map (bump u row) [0..<n] @ drop n row) n = bump u row n"
    by (simp add: bump_def rd)
  moreover have "(map (bump u row) [0..<n] @ drop n row)[n := v] = map (bump u row) [0..<n] @ v # drop (Suc n) row" for v
    using n by (simp add: list_update_append upd_conv_take_nth_drop)
  ultimately show ?case using IH by simp
qed

lemma updateRow_map: "length row = w \<Longrightarrow> updateRow w u row = map (bump u row) [0..<w]"
  by (simp add: updateRow_def fold_bump)

lemma bump_used: "bump u row u = 0"
  by (simp add: bump_def)

lemma unat_bump_other: "i \<noteq> u \<Longrightarrow> unat (bump u row i) = min 255 (unat (row ! i) + 1)"
  by (simp add: bump_def unat_of_nat min_def) 

lemma bump_other_nonzero: "i \<noteq> u \<Longrightarrow> bump u row i \<noteq> 0"
proof
  assume "i \<noteq> u" and "bump u row i = 0"
  then have "min 255 (unat (row ! i) + 1) = 0" using unat_bump_other [of i u row] by simp
  then show False by simp
qed

lemma takeWhile_updateRow:
  assumes "length row = w" "u < w"
  shows "length (takeWhile (\<lambda>x. x \<noteq> 0) (updateRow w u row)) = u"
proof -
  have "takeWhile (\<lambda>x. x \<noteq> 0) (updateRow w u row) = take u (updateRow w u row)"
  proof (rule takeWhile_eq_take_P_nth)
    fix i assume "i < u" "i < length (updateRow w u row)"
    then show "updateRow w u row ! i \<noteq> 0"
      using assms by (simp add: updateRow_map bump_other_nonzero)
  next
    assume "u < length (updateRow w u row)"
    then show "\<not> updateRow w u row ! u \<noteq> 0"
      using assms by (simp add: updateRow_map bump_used)
  qed
  then show ?thesis using assms by (simp add: updateRow_map)
qed

lemma pseudoLRU_updatePseudoLRU:
  "setIndex < length (pseudoLRU c) \<Longrightarrow>
   pseudoLRU (updatePseudoLRU c setIndex usedWay) ! setIndex =
     updateRow (ways c) usedWay (pseudoLRU c ! setIndex)"
  by (simp add: updatePseudoLRU_def)

text \<open>
  Claim C9. \<open>updatePseudoLRU\<close> on a set whose row of counters has \<open>ways\<close> entries, for
  a way below \<open>ways\<close>: the used way's counter becomes 0, every other counter becomes its
  old value plus 1, capped at 255, so exactly one way of the set has counter 0 afterwards,
  and the scan of \<open>getPseudoLRU\<close> stops at that way. The row keeps its length, so the
  same holds after every further update. This is for any old counters, the all-zero row of
  the constructor included.
\<close>

theorem updatePseudoLRU_one_zero:
  assumes "setIndex < length (pseudoLRU c)"
    and "length (pseudoLRU c ! setIndex) = ways c"
    and "usedWay < ways c"
  shows "pseudoLRU (updatePseudoLRU c setIndex usedWay) ! setIndex ! usedWay = 0
    \<and> (\<forall>i < ways c. i \<noteq> usedWay \<longrightarrow>
          unat (pseudoLRU (updatePseudoLRU c setIndex usedWay) ! setIndex ! i)
            = min 255 (unat (pseudoLRU c ! setIndex ! i) + 1))
    \<and> {i. i < ways c \<and> pseudoLRU (updatePseudoLRU c setIndex usedWay) ! setIndex ! i = 0}
          = {usedWay}
    \<and> getPseudoLRU (updatePseudoLRU c setIndex usedWay) setIndex = usedWay
    \<and> length (pseudoLRU (updatePseudoLRU c setIndex usedWay) ! setIndex)
          = ways (updatePseudoLRU c setIndex usedWay)"
proof -
  let ?row = "pseudoLRU c ! setIndex"
  have row': "pseudoLRU (updatePseudoLRU c setIndex usedWay) ! setIndex
                = map (bump usedWay ?row) [0..<ways c]"
    using assms by (simp add: pseudoLRU_updatePseudoLRU updateRow_map)
  have a: "map (bump usedWay ?row) [0..<ways c] ! usedWay = 0"
    using assms by (simp add: bump_used)
  have b: "\<forall>i < ways c. i \<noteq> usedWay \<longrightarrow>
      unat (map (bump usedWay ?row) [0..<ways c] ! i) = min 255 (unat (?row ! i) + 1)"
    by (simp add: unat_bump_other)
  have c: "{i. i < ways c \<and> map (bump usedWay ?row) [0..<ways c] ! i = 0} = {usedWay}"
  proof (intro set_eqI iffI)
    fix i
    assume "i \<in> {i. i < ways c \<and> map (bump usedWay ?row) [0..<ways c] ! i = 0}"
    then have "i < ways c" and "map (bump usedWay ?row) [0..<ways c] ! i = 0"
      by simp_all
    then have "bump usedWay ?row i = 0" by simp
    then have "i = usedWay" using bump_other_nonzero [of i usedWay ?row] by blast
    then show "i \<in> {usedWay}" by simp
  next
    fix i
    assume "i \<in> {usedWay}"
    then have "i = usedWay" by simp
    then show "i \<in> {i. i < ways c \<and> map (bump usedWay ?row) [0..<ways c] ! i = 0}"
      using assms(3) by (simp add: bump_used)
  qed
  have d: "getPseudoLRU (updatePseudoLRU c setIndex usedWay) setIndex = usedWay"
    using assms
    by (simp add: getPseudoLRU_def pseudoLRU_updatePseudoLRU takeWhile_updateRow)
  have e: "ways (updatePseudoLRU c setIndex usedWay) = ways c"
    by (simp add: updatePseudoLRU_def)
  have f: "length (map (bump usedWay ?row) [0..<ways c]) = ways c"
    by simp
  from a b c d f show ?thesis
    unfolding row' e by (intro conjI)
qed

theorem updatePseudoLRU_one_zero_witness:
  "0 < length (pseudoLRU (Cache_ctor 64 16 2 2))
   \<and> length (pseudoLRU (Cache_ctor 64 16 2 2) ! 0) = ways (Cache_ctor 64 16 2 2)
   \<and> 1 < ways (Cache_ctor 64 16 2 2)
   \<and> pseudoLRU (updatePseudoLRU (Cache_ctor 64 16 2 2) 0 1) ! 0 ! 1 = 0
   \<and> unat (pseudoLRU (updatePseudoLRU (Cache_ctor 64 16 2 2) 0 1) ! 0 ! 0) = 1
   \<and> getPseudoLRU (updatePseudoLRU (Cache_ctor 64 16 2 2) 0 1) 0 = 1"
proof -
  let ?c = "Cache_ctor 64 16 2 2"
  have h1: "0 < length (pseudoLRU ?c)"
    by (simp add: Cache_ctor_def)
  have h2: "length (pseudoLRU ?c ! 0) = ways ?c"
    by (simp add: Cache_ctor_def)
  have h3: "1 < ways ?c"
    by (simp add: Cache_ctor_def)
  have r: "pseudoLRU ?c ! 0 ! 0 = 0"
    by (simp add: Cache_ctor_def)
  note t = updatePseudoLRU_one_zero [OF h1 h2 h3]
  from t have a: "pseudoLRU (updatePseudoLRU ?c 0 1) ! 0 ! 1 = 0" by blast
  from t have "\<forall>i < ways ?c. i \<noteq> 1 \<longrightarrow>
      unat (pseudoLRU (updatePseudoLRU ?c 0 1) ! 0 ! i) = min 255 (unat (pseudoLRU ?c ! 0 ! i) + 1)"
    by blast
  then have "unat (pseudoLRU (updatePseudoLRU ?c 0 1) ! 0 ! 0) = min 255 (unat (pseudoLRU ?c ! 0 ! 0) + 1)"
    using h3 by simp
  then have b: "unat (pseudoLRU (updatePseudoLRU ?c 0 1) ! 0 ! 0) = 1"
    by (simp add: r)
  from t have c: "getPseudoLRU (updatePseudoLRU ?c 0 1) 0 = 1" by blast
  from h1 h2 h3 a b c show ?thesis by (intro conjI)
qed

lemma ctor_defined_pow2_bounds:
  assumes "ctor_defined sz block assoc" "block = 2 ^ k" "(sz div block) div assoc = 2 ^ j"
  shows "k < 32" "j < 32"
proof -
  from assms have pos: "0 < (sz div block) div assoc" and lt: "sz < 2 ^ 31" and b: "0 < block"
    unfolding ctor_defined_def by blast+
  have "(sz div block) div assoc \<le> sz div block" by (rule div_le_dividend)
  also have "\<dots> \<le> sz" by (rule div_le_dividend)
  finally have "(2::nat) ^ j \<le> sz" using assms(3) by (simp only:)
  from this lt have "(2::nat) ^ j < 2 ^ 31" by (rule le_less_trans)
  then have "j < 31" by (rule power_less_imp_less_exp [rotated]) simp
  then show "j < 32" by simp
  from pos have "0 < sz div block" by (metis div_0 gr0I)
  then have "block \<le> sz" using b by (simp add: div_greater_zero_iff)
  then have "(2::nat) ^ k \<le> sz" using assms(2) by (simp only:)
  from this lt have "(2::nat) ^ k < 2 ^ 31" by (rule le_less_trans)
  then have "k < 31" by (rule power_less_imp_less_exp [rotated]) simp
  then show "k < 32" by simp
qed

text \<open>
  Claim C10. When \<open>blockSize = 2 ^ k\<close> and \<open>numSets = 2 ^ j\<close>, the set index and the tag
  that \<open>accessCache\<close> computes for an address are
  \<open>(address >> k) & (numSets - 1)\<close> and \<open>address & ~(numSets * blockSize - 1)\<close>.
\<close>

theorem address_decomposition_pow2:
  assumes "ctor_defined sz block assoc"
    and "block = 2 ^ k"
    and "(sz div block) div assoc = 2 ^ j"
  shows "index_of (Cache_ctor sz block assoc v) a
           = unat (drop_bit k a AND (of_nat (numSets (Cache_ctor sz block assoc v)) - 1))
    \<and> tag_of (Cache_ctor sz block assoc v) a
           = a AND NOT (of_nat (numSets (Cache_ctor sz block assoc v)
                                 * blockSize (Cache_ctor sz block assoc v)) - 1)"
proof -
  let ?c = "Cache_ctor sz block assoc v"
  have kj: "k < 32" "j < 32" using assms by (rule ctor_defined_pow2_bounds)+
  have c1: "ctz block = k"
    using kj(1) by (simp only: assms(2) ctz_pow2)
  have c2: "ctz ((sz div block) div assoc) = j"
    using kj(2) by (simp only: assms(3) ctz_pow2)
  have n: "numSets ?c = 2 ^ j" and b: "blockSize ?c = 2 ^ k"
    by (simp_all add: Cache_ctor_def Let_def assms(2) assms(3) [unfolded assms(2)])
  have sm: "setMask ?c = 2 ^ j - 1"
    by (simp add: Cache_ctor_def Let_def c2)
  have tm: "tagMask ?c = NOT (2 ^ j * 2 ^ k - 1)"
    by (simp add: Cache_ctor_def Let_def c1 c2 power_add)
  show ?thesis
    by (simp add: index_of_def tag_of_def n b sm tm c1 [unfolded assms(2)])
qed

theorem address_decomposition_pow2_witness:
  "ctor_defined 32768 64 8 \<and> (64::nat) = 2 ^ 6 \<and> (32768 div 64) div 8 = (2::nat) ^ 6
   \<and> index_of (Cache_ctor 32768 64 8 8) 100 = 1
   \<and> tag_of (Cache_ctor 32768 64 8 8) 100 = 0"
proof -
  have h1: "ctor_defined 32768 64 8" by (simp add: ctor_defined_def)
  have h2: "(64::nat) = 2 ^ 6" by simp
  have h3: "(32768 div 64) div 8 = (2::nat) ^ 6" by simp
  have n: "numSets (Cache_ctor 32768 64 8 8) = 64" and b: "blockSize (Cache_ctor 32768 64 8 8) = 64"
    by (simp_all add: Cache_ctor_def)
  note t = address_decomposition_pow2 [OF h1 h2 h3, of 8 100]
  from t have "index_of (Cache_ctor 32768 64 8 8) 100 = unat (drop_bit 6 (100 :: 32 word) AND (of_nat 64 - 1))"
    by (simp only: n)
  then have a: "index_of (Cache_ctor 32768 64 8 8) 100 = 1" by simp
  from t have "tag_of (Cache_ctor 32768 64 8 8) 100 = (100 :: 32 word) AND NOT (of_nat (64 * 64) - 1)"
    by (simp only: n b)
  then have c: "tag_of (Cache_ctor 32768 64 8 8) 100 = 0" by simp
  from h1 h2 h3 a c show ?thesis by (intro conjI)
qed

subsection \<open>The invariant of the set store\<close>

lemma access_prefetch_invariant:
  assumes H: "\<And>c a w. Q c \<Longrightarrow>
        tagMatch (sets c ! index_of c a ! predictWay c (index_of c a) (tag_of c a)) (tag_of c a) \<Longrightarrow>
        Q (hitUpdate c (index_of c a) (predictWay c (index_of c a) (tag_of c a)) w)"
    and V: "\<And>c a w c1 c2. Q c \<Longrightarrow> checkVictimCache c (tag_of c a) = (True, c1) \<Longrightarrow>
        victimFill c1 (index_of c a) w = Inr c2 \<Longrightarrow> Q c2"
    and M: "\<And>c a w c1 c2. Q c \<Longrightarrow> checkVictimCache c (tag_of c a) = (False, c1) \<Longrightarrow>
        missFill c1 (index_of c a) (tag_of c a) w = Inr c2 \<Longrightarrow> Q c2"
    and P: "\<And>c e. Q c \<Longrightarrow> Q (c\<lparr>cout := cout c @ [e]\<rparr>)"
  shows "(\<forall>c a w h c'. Q c \<longrightarrow> accessCache n c a w = Inr (h, c') \<longrightarrow> Q c')
       \<and> (\<forall>c a c'. Q c \<longrightarrow> prefetchNextLine n c a = Inr c' \<longrightarrow> Q c')"
proof (induction n)
  case 0
  have pre: "Q c' " if q: "Q c" and r: "prefetchNextLine 0 c a = Inr c'" for c a c'
    using r q by (simp add: prefetchNextLine.simps Let_def split: if_splits)
  then show ?case by simp
next
  case (Suc n)
  then have IHp: "\<And>c a c'. Q c \<Longrightarrow> prefetchNextLine n c a = Inr c' \<Longrightarrow> Q c'"
    by blast
  have acc: "Q c'" if q: "Q c" and r: "accessCache (Suc n) c a w = Inr (h, c')" for c a w h c'
  proof (cases "tagMatch (sets c ! index_of c a ! predictWay c (index_of c a) (tag_of c a)) (tag_of c a)")
    case True
    with r have "prefetchNextLine n (hitUpdate c (index_of c a) (predictWay c (index_of c a) (tag_of c a)) w) a = Inr c'"
      by (simp add: accessCache.simps(2) Let_def split: sum.splits)
    moreover have "Q (hitUpdate c (index_of c a) (predictWay c (index_of c a) (tag_of c a)) w)"
      using q True by (rule H)
    ultimately show ?thesis using IHp by blast
  next
    case False
    obtain b c1 where cv: "checkVictimCache c (tag_of c a) = (b, c1)"
      by (cases "checkVictimCache c (tag_of c a)")
    show ?thesis
    proof (cases b)
      case True
      with r False cv have "victimFill c1 (index_of c a) w = Inr c'"
        by (simp add: accessCache.simps(2) Let_def split: sum.splits)
      moreover from cv True have "checkVictimCache c (tag_of c a) = (True, c1)" by simp
      ultimately show ?thesis using q V by blast
    next
      case nb: False
      with r False cv obtain c2 where mf: "missFill c1 (index_of c a) (tag_of c a) w = Inr c2"
        and pf: "prefetchNextLine n c2 a = Inr c'"
        by (auto simp: accessCache.simps(2) Let_def split: sum.splits)
      from cv nb have "checkVictimCache c (tag_of c a) = (False, c1)" by simp
      with q mf have "Q c2" using M by blast
      with pf show ?thesis using IHp by blast
    qed
  qed
  have pre: "Q c'" if q: "Q c" and r: "prefetchNextLine (Suc n) c a = Inr c'" for c a c'
  proof (cases "isAlreadyCached c (index_of c (a + of_nat (blockSize c))) (tag_of c (a + of_nat (blockSize c)))")
    case True
    with r q show ?thesis by (simp add: prefetchNextLine.simps Let_def)
  next
    case False
    with r obtain h where "accessCache (Suc n) (c\<lparr>cout := cout c @ [EvPrefetch (a + of_nat (blockSize c))]\<rparr>)
        (a + of_nat (blockSize c)) False = Inr (h, c')"
      by (auto simp: prefetchNextLine.simps Let_def split: sum.splits)
    moreover have "Q (c\<lparr>cout := cout c @ [EvPrefetch (a + of_nat (blockSize c))]\<rparr>)"
      using q by (rule P)
    ultimately show ?thesis using acc by blast
  qed
  from acc pre show ?case by blast
qed

lemma index_of_less: "unat (setMask c) < numSets c \<Longrightarrow> index_of c a < numSets c"
proof -
  assume m: "unat (setMask c) < numSets c"
  have "unat (drop_bit (ctz (blockSize c)) a AND setMask c) \<le> unat (setMask c)"
    by (rule word_and_le1 [THEN word_le_nat_alt [THEN iffD1]])
  with m show ?thesis by (simp add: index_of_def)
qed

lemma firstMatch_Some:
  "firstMatch bs t = Some i \<Longrightarrow> i < length bs \<and> tagMatch (bs ! i) t"
proof (induction bs arbitrary: i)
  case Nil
  then show ?case by simp
next
  case (Cons b bs)
  show ?case
  proof (cases "tagMatch b t")
    case True
    with Cons.prems show ?thesis by simp
  next
    case False
    with Cons.prems obtain j where j: "firstMatch bs t = Some j" and i: "i = Suc j"
      by auto
    from Cons.IH [OF j] i show ?thesis by simp
  qed
qed

lemma firstMatch_None: "firstMatch bs t = None \<longleftrightarrow> (\<forall>b \<in> set bs. \<not> tagMatch b t)"
  by (induction bs) auto

lemma getPseudoLRU_0:
  assumes "cacheInv c" "s < numSets c"
  shows "getPseudoLRU c s = 0"
proof -
  from assms have "length (pseudoLRU c ! s) = ways c" "0 < ways c" "pseudoLRU c ! s ! 0 = 0"
    by (simp_all add: cacheInv_def)
  then obtain x xs where "pseudoLRU c ! s = x # xs" "x = 0"
    by (cases "pseudoLRU c ! s") auto
  then show ?thesis by (simp add: getPseudoLRU_def)
qed

lemma predictWay_0:
  assumes "cacheInv c" "s < numSets c"
  shows "predictWay c s t = 0"
proof (cases "firstMatch (take (ways c) (sets c ! s)) t")
  case None
  then show ?thesis by (simp add: predictWay_def)
next
  case (Some i)
  from firstMatch_Some [OF Some] assms
  have i: "i < ways c" and "tagMatch (sets c ! s ! i) t"
    by (simp_all add: cacheInv_def)
  then have "valid (sets c ! s ! i)" by (simp add: tagMatch_def)
  with i assms have "i = 0" by (auto simp: cacheInv_def)
  with Some show ?thesis by (simp add: predictWay_def)
qed

lemma cacheInv_cout [simp]: "cacheInv (c\<lparr>cout := x\<rparr>) = cacheInv c"
  by (simp add: cacheInv_def)

lemma cacheInv_victimCache [simp]: "cacheInv (c\<lparr>victimCache := q\<rparr>) = cacheInv c"
  by (simp add: cacheInv_def)

lemma cacheInv_setBlock0:
  assumes "cacheInv c" "s < numSets c"
  shows "cacheInv (setBlock c s 0 b)"
  unfolding cacheInv_def setBlock_def
  using assms by (auto simp: cacheInv_def nth_list_update)

lemma cacheInv_updatePseudoLRU0:
  assumes "cacheInv c" "s < numSets c"
  shows "cacheInv (updatePseudoLRU c s 0)"
proof -
  from assms have len: "length (pseudoLRU c ! s) = ways c" and w: "0 < ways c"
    by (simp_all add: cacheInv_def)
  have row: "updateRow (ways c) 0 (pseudoLRU c ! s) = map (bump 0 (pseudoLRU c ! s)) [0..<ways c]"
    using len by (rule updateRow_map)
  have "length (updateRow (ways c) 0 (pseudoLRU c ! s)) = ways c"
    and "updateRow (ways c) 0 (pseudoLRU c ! s) ! 0 = 0"
    using w by (simp_all add: row bump_used)
  then show ?thesis
    unfolding cacheInv_def updatePseudoLRU_def
    using assms by (auto simp: cacheInv_def nth_list_update)
qed

lemma numSets_simps [simp]:
  "numSets (setBlock c s w b) = numSets c"
  "numSets (updatePseudoLRU c s u) = numSets c"
  "numSets (writeBack c s w) = numSets c"
  by (simp_all add: setBlock_def updatePseudoLRU_def writeBack_def Let_def)

lemma ways_simps [simp]:
  "ways (setBlock c s w b) = ways c"
  "ways (updatePseudoLRU c s u) = ways c"
  "ways (writeBack c s w) = ways c"
  by (simp_all add: setBlock_def updatePseudoLRU_def writeBack_def Let_def)

lemma cacheInv_hitUpdate:
  assumes "cacheInv c" "s < numSets c"
  shows "cacheInv (hitUpdate c s 0 w)"
  using assms by (simp add: hitUpdate_def Let_def cacheInv_updatePseudoLRU0 cacheInv_setBlock0)

lemma cacheInv_writeBack0:
  assumes "cacheInv c" "s < numSets c"
  shows "cacheInv (writeBack c s 0)"
  using assms by (simp add: writeBack_def Let_def cacheInv_setBlock0)

lemma checkVictimCache_fields:
  assumes "checkVictimCache c t = (b, c1)"
  shows "\<exists>q es. c1 = c\<lparr>victimCache := q, cout := es\<rparr>"
proof -
  obtain f q where vs: "victimScan (length (victimCache c)) (victimCache c) t = (f, q)"
    by (cases "victimScan (length (victimCache c)) (victimCache c) t")
  show ?thesis
  proof (cases f)
    case True
    with vs assms have "c1 = c\<lparr>victimCache := q, cout := cout c @ [EvVictimHit]\<rparr>"
      by (simp add: checkVictimCache_def)
    then show ?thesis by blast
  next
    case False
    with vs assms have "c1 = c\<lparr>victimCache := q\<rparr>"
      by (simp add: checkVictimCache_def)
    then have "c1 = c\<lparr>victimCache := q, cout := cout c\<rparr>" by simp
    then show ?thesis by blast
  qed
qed

lemma cacheInv_checkVictimCache:
  assumes "checkVictimCache c t = (b, c1)"
  shows "cacheInv c1 = cacheInv c" "numSets c1 = numSets c"
  using checkVictimCache_fields [OF assms] by auto

lemma addToVictimCache_fields:
  assumes "addToVictimCache c b = Inr c1"
  shows "\<exists>q. c1 = c\<lparr>victimCache := q\<rparr>"
  using assms by (auto simp: addToVictimCache_def split: if_splits list.splits)

lemma cacheInv_insertBlockToCache:
  assumes "cacheInv c" "s < numSets c" "insertBlockToCache c s b w = Inr c1"
  shows "cacheInv c1"
proof -
  from assms have "c1 = updatePseudoLRU (setBlock c s 0 (b\<lparr>dirty := w\<rparr>)) s 0"
    by (simp add: insertBlockToCache_def Let_def getPseudoLRU_0 split: if_splits)
  then show ?thesis
    using assms by (simp add: cacheInv_updatePseudoLRU0 cacheInv_setBlock0)
qed

lemma cacheInv_victimFill:
  assumes "cacheInv c" "s < numSets c" "victimFill c s w = Inr c1"
  shows "cacheInv c1"
  using assms
  by (auto simp: victimFill_def split: list.splits sum.splits dest: cacheInv_insertBlockToCache)

lemma cacheInv_missFill:
  assumes "cacheInv c" "s < numSets c" "missFill c s t w = Inr c1"
  shows "cacheInv c1"
proof -
  let ?c1 = "c\<lparr>cout := cout c @ [EvMiss]\<rparr>"
  have g: "getPseudoLRU ?c1 s = 0"
    using assms by (simp add: getPseudoLRU_0)
  let ?old = "sets ?c1 ! s ! 0"
  let ?c2 = "if valid ?old \<and> dirty ?old
             then writeBack (?c1\<lparr>cout := cout ?c1 @ [EvDirtyEvict]\<rparr>) s 0 else ?c1"
  have i2: "cacheInv ?c2" and n2: "numSets ?c2 = numSets c"
    using assms by (simp_all add: cacheInv_writeBack0)
  let ?cur = "sets ?c2 ! s ! 0"
  from assms(3) g obtain c3 where
    c3: "(if valid ?cur then addToVictimCache ?c2 ?cur else Inr ?c2) = Inr c3"
    and c1: "c1 = updatePseudoLRU (setBlock c3 s 0 (?cur\<lparr>valid := True, tag := ucast t, dirty := w\<rparr>)) s 0"
    by (auto simp: missFill_def Let_def split: if_splits sum.splits)
  have "cacheInv c3 \<and> numSets c3 = numSets c"
  proof (cases "valid ?cur")
    case True
    with c3 have "addToVictimCache ?c2 ?cur = Inr c3" by (simp only: if_True)
    then obtain q where "c3 = ?c2\<lparr>victimCache := q\<rparr>"
      using addToVictimCache_fields by blast
    then show ?thesis using i2 n2 by (simp only: cacheInv_victimCache) simp
  next
    case False
    with c3 have "c3 = ?c2" by (simp only: if_False sum.inject)
    then show ?thesis using i2 n2 by (simp only:) 
  qed
  then show ?thesis
    using assms(2) by (simp add: c1 cacheInv_updatePseudoLRU0 cacheInv_setBlock0)
qed

lemma unat_pow2_32:
  assumes "k < 32"
  shows "unat (2 ^ k :: 32 word) = 2 ^ k"
proof -
  have "(2 ^ k :: 32 word) = of_nat (2 ^ k)" by simp
  then have "unat (2 ^ k :: 32 word) = 2 ^ k mod 2 ^ LENGTH(32)"
    by (simp only: unat_of_nat)
  moreover have "(2::nat) ^ k < 2 ^ LENGTH(32)"
    using assms by (simp only: len_num1 power_strict_increasing_iff) simp
  ultimately show ?thesis by (simp only: mod_less)
qed

lemma setMask_ctor_less:
  assumes "ctor_defined sz block assoc"
  shows "unat (setMask (Cache_ctor sz block assoc v)) < numSets (Cache_ctor sz block assoc v)"
proof -
  let ?n = "(sz div block) div assoc"
  from assms have pos: "0 < ?n" and lt: "sz < 2 ^ 31"
    unfolding ctor_defined_def by blast+
  have le: "2 ^ ctz ?n \<le> ?n" using pos by (rule ctz_le)
  have "?n \<le> sz div block" by (rule div_le_dividend)
  also have "\<dots> \<le> sz" by (rule div_le_dividend)
  finally have "?n < 2 ^ 31" using lt by (rule le_less_trans)
  with le have "(2::nat) ^ ctz ?n < 2 ^ 31" by (rule le_less_trans)
  then have "ctz ?n < 31" by (rule power_less_imp_less_exp [rotated]) simp
  then have k: "ctz ?n < 32" by simp
  have ne: "(2 ^ ctz ?n :: 32 word) \<noteq> 0" using k by simp
  have "unat (2 ^ ctz ?n - 1 :: 32 word) = unat (2 ^ ctz ?n :: 32 word) - 1"
    using ne by (rule unat_minus_one)
  also have "\<dots> = 2 ^ ctz ?n - 1" using k by (simp only: unat_pow2_32)
  also have "\<dots> < ?n"
  proof -
    have "0 < (2::nat) ^ ctz ?n" by simp
    with le show ?thesis by linarith
  qed
  finally show ?thesis by (simp add: Cache_ctor_def Let_def)
qed

lemma cacheInv_ctor:
  assumes "ctor_defined sz block assoc"
  shows "cacheInv (Cache_ctor sz block assoc v)"
proof -
  have m: "unat (setMask (Cache_ctor sz block assoc v)) < numSets (Cache_ctor sz block assoc v)"
    using assms by (rule setMask_ctor_less)
  from assms have "0 < assoc" unfolding ctor_defined_def by blast
  then show ?thesis
    unfolding cacheInv_def using m by (simp add: Cache_ctor_def Let_def emptyBlock_def)
qed

lemma cacheInv_access:
  "(\<forall>c a w h c'. cacheInv c \<longrightarrow> accessCache n c a w = Inr (h, c') \<longrightarrow> cacheInv c')
   \<and> (\<forall>c a c'. cacheInv c \<longrightarrow> prefetchNextLine n c a = Inr c' \<longrightarrow> cacheInv c')"
proof (rule access_prefetch_invariant)
  fix c a w
  assume i: "cacheInv c"
  then have s: "index_of c a < numSets c" by (simp add: cacheInv_def index_of_less)
  with i have "predictWay c (index_of c a) (tag_of c a) = 0" by (rule predictWay_0)
  then show "cacheInv (hitUpdate c (index_of c a) (predictWay c (index_of c a) (tag_of c a)) w)"
    using i s by (simp add: cacheInv_hitUpdate)
next
  fix c a w c1 c2
  assume i: "cacheInv c" and cv: "checkVictimCache c (tag_of c a) = (True, c1)"
    and vf: "victimFill c1 (index_of c a) w = Inr c2"
  from i have s: "index_of c a < numSets c" by (simp add: cacheInv_def index_of_less)
  from cv i s have "cacheInv c1" "index_of c a < numSets c1"
    by (simp_all add: cacheInv_checkVictimCache)
  then show "cacheInv c2" using vf by (rule cacheInv_victimFill)
next
  fix c a w c1 c2
  assume i: "cacheInv c" and cv: "checkVictimCache c (tag_of c a) = (False, c1)"
    and mf: "missFill c1 (index_of c a) (tag_of c a) w = Inr c2"
  from i have s: "index_of c a < numSets c" by (simp add: cacheInv_def index_of_less)
  from cv i s have "cacheInv c1" "index_of c a < numSets c1"
    by (simp_all add: cacheInv_checkVictimCache)
  then show "cacheInv c2" using mf by (rule cacheInv_missFill)
next
  fix c e
  assume "cacheInv c"
  then show "cacheInv (c\<lparr>cout := cout c @ [e]\<rparr>)" by simp
qed

lemma cacheInv_reachable:
  assumes "reachable c0 c" "cacheInv c0"
  shows "cacheInv c"
  using assms
proof (induction rule: reachable.induct)
  case initial
  then show ?case .
next
  case (access c n a w h c')
  then show ?case using cacheInv_access [of n] by blast
qed

text \<open>
  Claim C5. In every state reachable from a constructed cache by calls of
  \<open>accessCache\<close>, two different ways of a set that are both valid hold different tags.
\<close>

theorem tag_uniqueness:
  assumes "ctor_defined sz block assoc"
    and "reachable (Cache_ctor sz block assoc v) c"
  shows "\<not> (\<exists>s i j. s < numSets c \<and> i < ways c \<and> j < ways c \<and> i \<noteq> j
            \<and> valid (sets c ! s ! i) \<and> valid (sets c ! s ! j)
            \<and> tag (sets c ! s ! i) = tag (sets c ! s ! j))"
proof
  assume "\<exists>s i j. s < numSets c \<and> i < ways c \<and> j < ways c \<and> i \<noteq> j
            \<and> valid (sets c ! s ! i) \<and> valid (sets c ! s ! j)
            \<and> tag (sets c ! s ! i) = tag (sets c ! s ! j)"
  then obtain s i j where s: "s < numSets c" and i: "i < ways c" and j: "j < ways c"
    and ne: "i \<noteq> j" and vi: "valid (sets c ! s ! i)" and vj: "valid (sets c ! s ! j)"
    by blast
  from assms have "cacheInv c"
    using cacheInv_reachable cacheInv_ctor by blast
  then have only0: "\<forall>s < numSets c. \<forall>w < ways c. valid (sets c ! s ! w) \<longrightarrow> w = 0"
    unfolding cacheInv_def by blast
  from only0 s i vi have "i = 0" by blast
  moreover from only0 s j vj have "j = 0" by blast
  ultimately show False using ne by simp
qed

subsection \<open>Evaluating concrete runs\<close>

lemma ctz_from_numeral:
  "ctz_from (numeral k) x = (if odd x then 0 else Suc (ctz_from (pred_numeral k) (x div 2)))"
  by (simp add: numeral_eq_Suc)

lemma ctz_values:
  "ctz (Suc 0) = 0" "ctz 2 = 1" "ctz 64 = 6"
  "ctz 268435456 = 28" "ctz 536870912 = 29" "ctz 1073741824 = 30"
  by (simp_all add: ctz_def ctz_from_numeral)

lemmas accessCache_numeral =
  accessCache.simps(2) [of "pred_numeral k" for k, folded numeral_eq_Suc]

lemma replicate_numeral':
  "replicate (numeral k) x = x # replicate (pred_numeral k) x"
  by (simp add: numeral_eq_Suc)

lemmas eval_simps = replicate_numeral' accessCache.simps(2) Cache_ctor_def emptyBlock_def index_of_def tag_of_def getPseudoLRU_def
  bump_def updateRow_def updatePseudoLRU_def tagMatch_def predictWay_def isAlreadyCached_def
  checkVictimCache_def addToVictimCache_def setBlock_def writeBack_def insertBlockToCache_def
  hitUpdate_def victimFill_def missFill_def Let_def ctz_values accessCache_numeral
  prefetchNextLine.simps upt_rec

lemma run_two_way:
  "accessCache 9 (Cache_ctor 1073741824 536870912 2 2) 0 False = Inr (False, twoWayAfter)"
  by (simp add: eval_simps twoWayAfter_def)

theorem tag_uniqueness_witness:
  "ctor_defined 1073741824 536870912 2
   \<and> reachable (Cache_ctor 1073741824 536870912 2 2) twoWayAfter
   \<and> \<not> (\<exists>s i j. s < numSets twoWayAfter \<and> i < ways twoWayAfter \<and> j < ways twoWayAfter
          \<and> i \<noteq> j \<and> valid (sets twoWayAfter ! s ! i) \<and> valid (sets twoWayAfter ! s ! j)
          \<and> tag (sets twoWayAfter ! s ! i) = tag (sets twoWayAfter ! s ! j))"
proof -
  have h1: "ctor_defined 1073741824 536870912 2"
    by (simp add: ctor_defined_def)
  have h2: "reachable (Cache_ctor 1073741824 536870912 2 2) twoWayAfter"
    using reachable.initial run_two_way by (rule reachable.access)
  from h1 h2 tag_uniqueness [OF h1 h2] show ?thesis by (intro conjI)
qed

subsection \<open>The runs\<close>

text \<open>Each run below is checked by unfolding the definitions on the concrete state.\<close>

lemmas state_defs = oneWayA1_def oneWayA2_def oneWayA3_def oneWayA3w_def oneWayA4_def bigBlockB1_def bigBlockB2_def twoSetD1_def twoSetD2_def twoSetD3_def twoWayVictimHit_def twoWayAfter_def

lemma run_A1:
  "accessCache 5 (Cache_ctor 536870912 536870912 1 3) 0x80000000 False = Inr (False, oneWayA1)"
  by (simp add: eval_simps state_defs)

lemma run_A2:
  "accessCache 2 oneWayA1 0xE0000000 False = Inr (False, oneWayA2)"
  by (simp add: eval_simps state_defs)

lemma run_A3:
  "accessCache 1 oneWayA2 0x20000000 False = Inr (True, oneWayA3)"
  by (simp add: eval_simps state_defs)

lemma run_A3w:
  "accessCache 1 oneWayA2 0x20000000 True = Inr (True, oneWayA3w)"
  by (simp add: eval_simps state_defs)

lemma run_A4:
  "accessCache 1 oneWayA3w 0x20000000 False = Inr (True, oneWayA4)"
  by (simp add: eval_simps state_defs)

lemma run_B1:
  "accessCache 1 (Cache_ctor 1073741824 1073741824 1 1) 0xC0000000 False = Inr (False, bigBlockB1)"
  by (simp add: eval_simps state_defs)

lemma run_B2:
  "accessCache 1 bigBlockB1 0xC0000000 False = Inr (False, bigBlockB2)"
  by (simp add: eval_simps state_defs)

lemma run_D1:
  "accessCache 14 (Cache_ctor 536870912 268435456 1 11) 0x30000000 False = Inr (False, twoSetD1)"
  by (simp add: eval_simps state_defs)

lemma run_D2:
  "accessCache 8 twoSetD1 0x90000000 False = Inr (False, twoSetD2)"
  by (simp add: eval_simps state_defs)

lemma run_D3:
  "accessCache 1 twoSetD2 0x20000000 False = Inr (True, twoSetD3)"
  by (simp add: eval_simps state_defs)

lemma run_V:
  "accessCache 1 twoWayAfter 0 False = Inr (True, twoWayVictimHit)"
  by (simp add: eval_simps state_defs)

subsection \<open>Construction\<close>

text \<open>
  Claim C7, as amended. The constructor makes no power-of-two check and signals no error.
  Wherever it is defined it returns a cache with \<open>numSets = size / block / assoc\<close>, the
  set mask \<open>2 ^ ctz numSets - 1\<close> and the tag mask
  \<open>~(2 ^ (ctz numSets + ctz block) - 1)\<close>; every set index computed with these masks is
  below \<open>numSets\<close>, and the tables have the dimensions that \<open>cacheInv\<close> states.
\<close>

theorem ctor_masks:
  assumes "ctor_defined sz block assoc"
  shows "numSets (Cache_ctor sz block assoc v) = (sz div block) div assoc
    \<and> blockSize (Cache_ctor sz block assoc v) = block
    \<and> setMask (Cache_ctor sz block assoc v) = 2 ^ ctz ((sz div block) div assoc) - 1
    \<and> tagMask (Cache_ctor sz block assoc v)
          = NOT (2 ^ (ctz ((sz div block) div assoc) + ctz block) - 1)
    \<and> index_of (Cache_ctor sz block assoc v) a < numSets (Cache_ctor sz block assoc v)
    \<and> cacheInv (Cache_ctor sz block assoc v)"
proof -
  have "index_of (Cache_ctor sz block assoc v) a < numSets (Cache_ctor sz block assoc v)"
    using assms by (intro index_of_less setMask_ctor_less)
  moreover have "cacheInv (Cache_ctor sz block assoc v)"
    using assms by (rule cacheInv_ctor)
  ultimately show ?thesis
    by (simp add: Cache_ctor_def Let_def)
qed

theorem ctor_masks_witness:
  "ctor_defined 96 24 2
   \<and> numSets (Cache_ctor 96 24 2 1) = 2
   \<and> setMask (Cache_ctor 96 24 2 1) = 1
   \<and> tagMask (Cache_ctor 96 24 2 1) = 0xFFFFFFF0
   \<and> index_of (Cache_ctor 96 24 2 1) 16 < 2"
proof -
  have h: "ctor_defined 96 24 2" by (simp add: ctor_defined_def)
  have c: "ctz 24 = 3" "ctz 2 = 1"
    by (simp_all add: ctz_def ctz_from_numeral)
  have d: "(96 div 24) div 2 = (2::nat)" by simp
  note t = ctor_masks [OF h, of 1 16, unfolded d c]
  from t have n: "numSets (Cache_ctor 96 24 2 1) = 2" by blast
  from t have "setMask (Cache_ctor 96 24 2 1) = 2 ^ 1 - 1" by blast
  then have s: "setMask (Cache_ctor 96 24 2 1) = 1" by simp
  from t have "tagMask (Cache_ctor 96 24 2 1) = NOT (2 ^ (1 + 3) - 1)" by blast
  then have m: "tagMask (Cache_ctor 96 24 2 1) = 0xFFFFFFF0" by simp
  from t have "index_of (Cache_ctor 96 24 2 1) 16 < numSets (Cache_ctor 96 24 2 1)" by blast
  then have i: "index_of (Cache_ctor 96 24 2 1) 16 < 2" by (simp only: n)
  from h n s m i show ?thesis by (intro conjI)
qed

text \<open>
  Claim C7 as stated fails. A block size of 24 is not a power of two, and the constructor
  returns a cache for it. Its masks come from \<open>ctz 24 = 3\<close>: the addresses 8 and 16 lie in
  the same block of 24 bytes and get different set indices.
\<close>

theorem ctor_accepts_non_power_of_two:
  "ctor_defined 96 24 2 \<and> \<not> isPowerOfTwo 24
   \<and> Cache_ctor 96 24 2 1 =
       \<lparr>cacheSize = 96, blockSize = 24, numSets = 2, ways = 2,
        sets = [[emptyBlock, emptyBlock], [emptyBlock, emptyBlock]],
        pseudoLRU = [[0, 0], [0, 0]], victimCache = [], victimCacheSize = 1,
        setMask = 1, tagMask = 0xFFFFFFF0, cout = []\<rparr>
   \<and> index_of (Cache_ctor 96 24 2 1) 8 = 1
   \<and> index_of (Cache_ctor 96 24 2 1) 16 = 0"
proof -
  have c: "ctz 24 = 3" "ctz 2 = 1"
    by (simp_all add: ctz_def ctz_from_numeral)
  show ?thesis
    by (simp add: ctor_defined_def isPowerOfTwo_def c Cache_ctor_def Let_def index_of_def
        replicate_numeral')
qed

subsection \<open>Prefetch\<close>

lemma cout_checkVictimCache_True:
  "checkVictimCache c t = (True, c1) \<Longrightarrow> cout c1 = cout c @ [EvVictimHit]"
  by (auto simp: checkVictimCache_def split: prod.splits bool.splits)

lemma cout_insertBlockToCache:
  "insertBlockToCache c s b w = Inr c1 \<Longrightarrow> cout c1 = cout c"
  by (auto simp: insertBlockToCache_def Let_def updatePseudoLRU_def setBlock_def split: if_splits)

lemma cout_victimFill:
  "victimFill c s w = Inr c1 \<Longrightarrow> cout c1 = cout c"
  by (auto simp: victimFill_def split: list.splits sum.splits dest: cout_insertBlockToCache)

text \<open>
  The three ways through \<open>accessCache\<close>, and the prefetch step. After a hit in the set
  and after the fill of a miss the call goes on with \<open>prefetchNextLine\<close>; after a hit in
  the victim cache it returns with nothing but the victim-hit line added to the output.
\<close>

lemma accessCache_paths:
  assumes "accessCache (Suc n) c a w = Inr (h, c')"
  shows "(tagMatch (sets c ! index_of c a ! predictWay c (index_of c a) (tag_of c a)) (tag_of c a)
            \<longrightarrow> h \<and> prefetchNextLine n
                        (hitUpdate c (index_of c a) (predictWay c (index_of c a) (tag_of c a)) w) a
                      = Inr c')
    \<and> (\<not> tagMatch (sets c ! index_of c a ! predictWay c (index_of c a) (tag_of c a)) (tag_of c a)
          \<and> fst (checkVictimCache c (tag_of c a))
            \<longrightarrow> h \<and> victimFill (snd (checkVictimCache c (tag_of c a))) (index_of c a) w = Inr c'
                  \<and> cout c' = cout c @ [EvVictimHit])
    \<and> (\<not> tagMatch (sets c ! index_of c a ! predictWay c (index_of c a) (tag_of c a)) (tag_of c a)
          \<and> \<not> fst (checkVictimCache c (tag_of c a))
            \<longrightarrow> \<not> h \<and> (\<exists>c2. missFill (snd (checkVictimCache c (tag_of c a))) (index_of c a)
                                  (tag_of c a) w = Inr c2
                              \<and> prefetchNextLine n c2 a = Inr c'))
    \<and> (\<forall>c1. prefetchNextLine n c1 a = Inr c' \<longrightarrow>
          (if isAlreadyCached c1 (index_of c1 (a + of_nat (blockSize c1)))
                (tag_of c1 (a + of_nat (blockSize c1)))
           then c' = c1
           else \<exists>h'. accessCache n (c1\<lparr>cout := cout c1 @ [EvPrefetch (a + of_nat (blockSize c1))]\<rparr>)
                        (a + of_nat (blockSize c1)) False = Inr (h', c')))"
proof -
  let ?s = "index_of c a" and ?t = "tag_of c a"
  let ?p = "predictWay c ?s ?t"
  let ?hit = "tagMatch (sets c ! ?s ! ?p) ?t"
  have A: "?hit \<longrightarrow> h \<and> prefetchNextLine n (hitUpdate c ?s ?p w) a = Inr c'"
    using assms by (auto simp: accessCache.simps(2) Let_def split: sum.splits)
  have B: "\<not> ?hit \<and> fst (checkVictimCache c ?t)
      \<longrightarrow> h \<and> victimFill (snd (checkVictimCache c ?t)) ?s w = Inr c'
          \<and> cout c' = cout c @ [EvVictimHit]"
  proof
    assume b: "\<not> ?hit \<and> fst (checkVictimCache c ?t)"
    obtain c1 where cv: "checkVictimCache c ?t = (True, c1)"
      using b by (cases "checkVictimCache c ?t") auto
    with assms b have hv: "h" and vf: "victimFill c1 ?s w = Inr c'"
      by (auto simp: accessCache.simps(2) Let_def split: sum.splits)
    from vf have "cout c' = cout c1" by (rule cout_victimFill)
    also from cv have "\<dots> = cout c @ [EvVictimHit]" by (rule cout_checkVictimCache_True)
    finally show "h \<and> victimFill (snd (checkVictimCache c ?t)) ?s w = Inr c'
        \<and> cout c' = cout c @ [EvVictimHit]"
      using hv vf cv by simp
  qed
  have C: "\<not> ?hit \<and> \<not> fst (checkVictimCache c ?t)
      \<longrightarrow> \<not> h \<and> (\<exists>c2. missFill (snd (checkVictimCache c ?t)) ?s ?t w = Inr c2
                        \<and> prefetchNextLine n c2 a = Inr c')"
  proof
    assume b: "\<not> ?hit \<and> \<not> fst (checkVictimCache c ?t)"
    obtain c1 where cv: "checkVictimCache c ?t = (False, c1)"
      using b by (cases "checkVictimCache c ?t") auto
    with assms b show "\<not> h \<and> (\<exists>c2. missFill (snd (checkVictimCache c ?t)) ?s ?t w = Inr c2
        \<and> prefetchNextLine n c2 a = Inr c')"
      by (auto simp: accessCache.simps(2) Let_def split: sum.splits)
  qed
  have D: "\<forall>c1. prefetchNextLine n c1 a = Inr c' \<longrightarrow>
          (if isAlreadyCached c1 (index_of c1 (a + of_nat (blockSize c1)))
                (tag_of c1 (a + of_nat (blockSize c1)))
           then c' = c1
           else \<exists>h'. accessCache n (c1\<lparr>cout := cout c1 @ [EvPrefetch (a + of_nat (blockSize c1))]\<rparr>)
                        (a + of_nat (blockSize c1)) False = Inr (h', c'))"
    by (auto simp: prefetchNextLine.simps Let_def split: sum.splits if_splits)
  show ?thesis
    by (rule conjI [OF A conjI [OF B conjI [OF C D]]])
qed

text \<open>
  Claim C4 fails on the code. The branch of \<open>accessCache\<close> for a hit in the victim cache
  (lines 62 to 66) returns without the call of \<open>prefetchNextLine\<close> that the two other
  branches make (lines 57 and 88). In the state \<open>twoWayAfter\<close> a read of address 0 hits in
  the victim cache and returns hit; the output gains the victim-hit line and no prefetch
  line, and the next line, at \<open>0x20000000\<close>, is not in its set afterwards.
\<close>

theorem victim_hit_without_prefetch:
  "accessCache 5 twoWayAfter 0 False = Inr (True, twoWayVictimHit)
   \<and> cout twoWayVictimHit = cout twoWayAfter @ [EvVictimHit]
   \<and> \<not> isAlreadyCached twoWayVictimHit
          (index_of twoWayVictimHit (0 + of_nat (blockSize twoWayVictimHit)))
          (tag_of twoWayVictimHit (0 + of_nat (blockSize twoWayVictimHit)))"
  by (simp add: eval_simps state_defs)

text \<open>
  The prefetch step of the other two branches tests for the next line with the 30-bit tag
  field, so a line stored from an address at or above \<open>2 ^ 30\<close> can pass for it. In a
  fresh two-set cache with blocks of \<open>2 ^ 29\<close> bytes, a read of \<open>0xE0000000\<close> leaves
  that line in set 1 with the tag field 0. A read of address 0 then hits, and its prefetch
  finds the line of \<open>0x20000000\<close> present, though that address was never read or
  prefetched: the output gains the hit line only.
\<close>

lemma store_hit_false_residency:
  "accessCache 5 (Cache_ctor 1073741824 536870912 1 1) 0xE0000000 False = Inr (False, twoSetE1)
   \<and> EvPrefetch 0x20000000 \<notin> set (cout twoSetE1)
   \<and> accessCache 5 twoSetE1 0 False = Inr (True, twoSetE2)
   \<and> cout twoSetE2 = cout twoSetE1 @ [EvHit 0 0]"
  by (simp add: eval_simps twoSetE1_def twoSetE2_def)

subsection \<open>The victim cache and the tag field\<close>

lemma reachable_A2: "reachable (Cache_ctor 536870912 536870912 1 3) oneWayA2"
  using reachable.access [OF reachable.initial run_A1] run_A2 by (rule reachable.access)

text \<open>
  Claim C1 fails on the code. \<open>checkVictimCache\<close> pushes the matching block to the back
  of the queue before it returns, and \<open>accessCache\<close> then takes and pops the front. In
  the reachable state \<open>oneWayA2\<close> the queue holds the tags \<open>0x20000000\<close> and 0; a read
  of \<open>0x20000000\<close> is reported as a hit, the block with tag 0 goes into the set, and the
  block with tag \<open>0x20000000\<close> stays in the queue.
\<close>

theorem victim_hit_inserts_other_entry:
  "reachable (Cache_ctor 536870912 536870912 1 3) oneWayA2
   \<and> tag_of oneWayA2 0x20000000 = 0x20000000
   \<and> map tag (sets oneWayA2 ! 0) = [0]
   \<and> map tag (victimCache oneWayA2) = [0x20000000, 0]
   \<and> accessCache 5 oneWayA2 0x20000000 False = Inr (True, oneWayA3)
   \<and> map tag (sets oneWayA3 ! 0) = [0]
   \<and> map tag (victimCache oneWayA3) = [0x20000000]"
proof -
  have "accessCache 5 oneWayA2 0x20000000 False = Inr (True, oneWayA3)"
    by (simp add: eval_simps state_defs)
  with reachable_A2 show ?thesis
    by (simp add: state_defs tag_of_def)
qed

lemma reachable_A3w: "reachable (Cache_ctor 536870912 536870912 1 3) oneWayA3w"
  using reachable_A2 run_A3w by (rule reachable.access)

text \<open>
  Claim C2 fails on the code on the victim-cache path. In the reachable state
  \<open>oneWayA3w\<close> the only line of the set is valid and dirty. A read of \<open>0x20000000\<close>
  hits in the victim cache and \<open>insertBlockToCache\<close> overwrites that line: the call adds
  the victim-hit line to the output and no write-back line, and afterwards the dirty line is
  neither in the set nor in the victim cache.
\<close>

theorem victim_hit_overwrites_dirty_line:
  "reachable (Cache_ctor 536870912 536870912 1 3) oneWayA3w
   \<and> sets oneWayA3w = [[\<lparr>valid = True, dirty = True, tag = 0, data = 0\<rparr>]]
   \<and> accessCache 5 oneWayA3w 0x20000000 False = Inr (True, oneWayA4)
   \<and> cout oneWayA4 = cout oneWayA3w @ [EvVictimHit]
   \<and> sets oneWayA4 = [[\<lparr>valid = True, dirty = False, tag = 0x20000000, data = 0\<rparr>]]
   \<and> victimCache oneWayA4 = []"
proof -
  have "accessCache 5 oneWayA3w 0x20000000 False = Inr (True, oneWayA4)"
    by (simp add: eval_simps state_defs)
  with reachable_A3w show ?thesis
    by (simp add: state_defs)
qed

text \<open>
  Claim C6 fails on the code. The tag field keeps 30 bits, and the tag of an address is the
  address with its low bits cleared, so the two top bits of the address are lost in the
  store and a line at or above \<open>2 ^ 30\<close> never compares equal again. In a fresh cache a
  read of \<open>0xC0000000\<close> is a miss that fills the set and evicts nothing; the same read
  again is a miss.
\<close>

theorem repeated_access_misses_twice:
  "accessCache 5 (Cache_ctor 1073741824 1073741824 1 1) 0xC0000000 False = Inr (False, bigBlockB1)
   \<and> sets bigBlockB1 = [[\<lparr>valid = True, dirty = False, tag = 0, data = 0\<rparr>]]
   \<and> victimCache bigBlockB1 = []
   \<and> accessCache 5 bigBlockB1 0xC0000000 False = Inr (False, bigBlockB2)"
  by (simp add: eval_simps state_defs)

lemma reachable_D2: "reachable (Cache_ctor 536870912 268435456 1 11) twoSetD2"
  using reachable.access [OF reachable.initial run_D1] run_D2 by (rule reachable.access)

text \<open>
  Claim C8. The addresses \<open>0x20000000\<close> and \<open>0x30000000\<close> have the same tag and the
  set indices 0 and 1. After reads of \<open>0x30000000\<close> and \<open>0x90000000\<close> the address
  \<open>0x20000000\<close> has been neither read nor prefetched and is not in its set; the block at
  the front of the victim cache carries the tag of \<open>0x30000000\<close>, and a read of
  \<open>0x20000000\<close> returns hit from the victim cache.
\<close>

theorem victim_hit_across_sets:
  "(0x20000000 :: 32 word) \<noteq> 0x30000000
   \<and> tag_of twoSetD2 0x20000000 = tag_of twoSetD2 0x30000000
   \<and> index_of twoSetD2 0x20000000 = 0 \<and> index_of twoSetD2 0x30000000 = 1
   \<and> accessCache 14 (Cache_ctor 536870912 268435456 1 11) 0x30000000 False = Inr (False, twoSetD1)
   \<and> accessCache 8 twoSetD1 0x90000000 False = Inr (False, twoSetD2)
   \<and> EvPrefetch 0x20000000 \<notin> set (cout twoSetD2)
   \<and> \<not> isAlreadyCached twoSetD2 0 (tag_of twoSetD2 0x20000000)
   \<and> ucast (tag (hd (victimCache twoSetD2))) = tag_of twoSetD2 0x30000000
   \<and> accessCache 5 twoSetD2 0x20000000 False = Inr (True, twoSetD3)
   \<and> cout twoSetD3 = cout twoSetD2 @ [EvVictimHit]"
proof -
  have "accessCache 5 twoSetD2 0x20000000 False = Inr (True, twoSetD3)"
    by (simp add: eval_simps state_defs)
  with run_D1 run_D2 show ?thesis
    by (simp add: state_defs tag_of_def index_of_def isAlreadyCached_def tagMatch_def ctz_values)
qed

subsection \<open>The prefetch chain of the driver's first access\<close>

text \<open>Set index and tag of the next line, for 64 sets of 64-byte blocks.\<close>

lemma and_not_mask_push_drop:
  "(a :: 32 word) AND NOT (mask n) = push_bit n (drop_bit n a)"
  by (rule bit_eqI) (auto simp: bit_and_iff bit_not_iff bit_mask_iff bit_push_bit_iff bit_drop_bit_eq)

lemma l1_index_unat: "unat (drop_bit 6 a AND (63::32 word)) = (unat a div 64) mod 64"
proof -
  have "(63::32 word) = mask 6" by (simp add: mask_eq_exp_minus_1)
  then have "drop_bit 6 a AND (63::32 word) = take_bit 6 (drop_bit 6 a)"
    by (simp add: take_bit_eq_mask)
  then have "unat (drop_bit 6 a AND (63::32 word)) = take_bit 6 (drop_bit 6 (unat a))"
    by (simp add: unsigned_take_bit_eq unat_drop_bit_eq)
  then show ?thesis by (simp add: take_bit_eq_mod drop_bit_eq_div)
qed

lemma l1_tag_unat: "unat (a AND (- 4096 :: 32 word)) = (unat a div 4096) * 4096"
proof -
  have "(- 4096 :: 32 word) = NOT (mask 12)" by (simp add: mask_eq_exp_minus_1)
  then have "a AND (- 4096 :: 32 word) = push_bit 12 (drop_bit 12 a)"
    by (simp only: and_not_mask_push_drop)
  then have "unat (a AND (- 4096 :: 32 word)) = take_bit 32 (push_bit 12 (drop_bit 12 (unat a)))"
    by (simp only: unsigned_push_bit_eq unat_drop_bit_eq) simp
  also have "\<dots> = ((unat a div 4096) * 4096) mod 4294967296"
    by (simp add: take_bit_eq_mod push_bit_eq_mult drop_bit_eq_div)
  also have "\<dots> = (unat a div 4096) * 4096"
  proof -
    have "unat a < 4294967296" using unsigned_less [of a] by simp
    moreover have "(unat a div 4096) * 4096 \<le> unat a" by simp
    ultimately have "(unat a div 4096) * 4096 < 4294967296" by (rule le_less_trans [rotated])
    then show ?thesis by simp
  qed
  finally show ?thesis .
qed

lemma unat_plus_4096: "unat (a + 4096 :: 32 word) = (unat a + 4096) mod 4294967296"
  by (simp add: unat_word_ariths)

lemma unat_plus_64: "unat (a + 64 :: 32 word) = (unat a + 64) mod 4294967296"
  by (simp add: unat_word_ariths)



lemma v_same: "(v::nat) mod 64 < 63 \<Longrightarrow> (v + 1) mod 64 = v mod 64 + 1 \<and> (v + 1) div 64 = v div 64"
  by (simp add: mod_Suc div_Suc)

lemma v_wrap: "(v::nat) mod 64 = 63 \<Longrightarrow> (v + 1) mod 64 = 0 \<and> (v + 1) div 64 = v div 64 + 1"
  by (simp add: mod_Suc div_Suc)

lemma mod_mult_div: "0 < n \<Longrightarrow> ((x::nat) mod (n * q)) div n = (x div n) mod q"
  by (simp add: mod_mult2_eq)

lemma m1: "((u::nat) mod 4294967296) div 64 = (u div 64) mod 67108864"
  using mod_mult_div [of 64 u 67108864] by simp

lemma m2: "((u::nat) mod 67108864) mod 64 = u mod 64"
  by (rule mod_mod_cancel) simp

lemma m3: "((u::nat) mod 67108864) div 64 = (u div 64) mod 1048576"
  using mod_mult_div [of 64 u 1048576] by simp

lemma m4: "((u::nat) mod 1048576) * 4096 = (u * 4096) mod 4294967296"
  using mult_mod_left [of u 1048576 4096] by simp

lemma unat_lt_2p32: "unat (a :: 32 word) < 4294967296"
  using unsigned_less [of a] by simp

lemma line_lt: "unat (a :: 32 word) div 64 < 67108864"
  using unat_lt_2p32 [of a] by simp

lemma l1_index_next: "unat (drop_bit 6 (a + 64) AND (63::32 word)) = (unat a div 64 + 1) mod 64"
proof -
  have "unat (drop_bit 6 (a + 64) AND (63::32 word)) = (((unat a + 64) mod 4294967296) div 64) mod 64"
    by (simp only: l1_index_unat unat_plus_64)
  also have "\<dots> = (((unat a + 64) div 64) mod 67108864) mod 64"
    by (simp only: m1)
  also have "\<dots> = ((unat a + 64) div 64) mod 64"
    by (simp only: m2)
  also have "(unat a + 64) div 64 = unat a div 64 + 1"
    by simp
  finally show ?thesis .
qed

lemma l1_tag_next:
  "unat ((a + 64) AND (- 4096 :: 32 word)) = (((unat a div 64 + 1) div 64) mod 1048576) * 4096"
proof -
  have "unat ((a + 64) AND (- 4096 :: 32 word)) = (((unat a + 64) mod 4294967296) div 4096) * 4096"
    by (simp only: l1_tag_unat unat_plus_64)
  also have "((unat a + 64) mod 4294967296) div 4096 = (((unat a + 64) mod 4294967296) div 64) div 64"
    using div_mult2_eq [of "(unat a + 64) mod 4294967296" 64 64] by simp
  also have "\<dots> = (((unat a + 64) div 64) mod 67108864) div 64"
    by (simp only: m1)
  also have "\<dots> = (((unat a + 64) div 64) div 64) mod 1048576"
    by (simp only: m3)
  also have "(unat a + 64) div 64 = unat a div 64 + 1"
    by simp
  finally show ?thesis .
qed

lemma l1_tag_line: "unat (a AND (- 4096 :: 32 word)) = ((unat a div 64) div 64) * 4096"
  using div_mult2_eq [of "unat a" 64 64] by (simp only: l1_tag_unat) simp

lemma l1_next_same:
  assumes "unat (drop_bit 6 a AND (63::32 word)) < 63"
  shows "unat (drop_bit 6 (a + 64) AND (63::32 word)) = unat (drop_bit 6 a AND (63::32 word)) + 1"
    and "(a + 64) AND (- 4096 :: 32 word) = a AND - 4096"
proof -
  let ?v = "unat a div 64"
  from assms have v: "?v mod 64 < 63" by (simp only: l1_index_unat)
  from v_same [OF v] have s1: "(?v + 1) mod 64 = ?v mod 64 + 1" and s2: "(?v + 1) div 64 = ?v div 64"
    by blast+
  show "unat (drop_bit 6 (a + 64) AND (63::32 word)) = unat (drop_bit 6 a AND (63::32 word)) + 1"
    by (simp only: l1_index_next) (simp only: l1_index_unat s1)
  have "?v div 64 < 1048576" using line_lt [of a] by simp
  then have small: "(?v div 64) mod 1048576 = ?v div 64" by simp
  have "unat ((a + 64) AND (- 4096 :: 32 word)) = (((?v + 1) div 64) mod 1048576) * 4096"
    by (rule l1_tag_next)
  also have "\<dots> = ((?v div 64) mod 1048576) * 4096" by (simp only: s2)
  also have "\<dots> = (?v div 64) * 4096" by (simp only: small)
  also have "\<dots> = unat (a AND (- 4096 :: 32 word))" by (rule l1_tag_line [symmetric])
  finally show "(a + 64) AND (- 4096 :: 32 word) = a AND - 4096"
    by (simp only: word_unat_eq_iff)
qed

lemma l1_next_wrap:
  assumes "unat (drop_bit 6 a AND (63::32 word)) = 63"
  shows "unat (drop_bit 6 (a + 64) AND (63::32 word)) = 0"
    and "(a + 64) AND (- 4096 :: 32 word) = (a AND - 4096) + 4096"
proof -
  let ?v = "unat a div 64"
  from assms have v: "?v mod 64 = 63" by (simp only: l1_index_unat)
  from v_wrap [OF v] have s1: "(?v + 1) mod 64 = 0" and s2: "(?v + 1) div 64 = ?v div 64 + 1"
    by blast+
  show "unat (drop_bit 6 (a + 64) AND (63::32 word)) = 0"
    by (simp only: l1_index_next s1)
  have "unat ((a + 64) AND (- 4096 :: 32 word)) = ((?v div 64 + 1) mod 1048576) * 4096"
    by (simp only: l1_tag_next s2)
  also have "\<dots> = ((?v div 64 + 1) * 4096) mod 4294967296"
    by (rule m4)
  also have "(?v div 64 + 1) * 4096 = unat (a AND (- 4096 :: 32 word)) + 4096"
    unfolding l1_tag_line [of a] by simp
  also have "(unat (a AND (- 4096 :: 32 word)) + 4096) mod 4294967296
      = unat ((a AND (- 4096 :: 32 word)) + 4096)"
    by (rule unat_plus_4096 [symmetric])
  finally show "(a + 64) AND (- 4096 :: 32 word) = (a AND - 4096) + 4096"
    by (simp only: word_unat_eq_iff)
qed

lemma ucast_30_take_bit: "(ucast (ucast (y :: 32 word) :: 30 word) :: 32 word) = take_bit 30 y"
  by (rule bit_eqI) (auto simp: bit_unsigned_iff bit_take_bit_iff)

lemma truncated_tag_differs:
  fixes x k :: "32 word"
  assumes "uint k mod 1073741824 \<noteq> 0"
  shows "(ucast (ucast (x - k) :: 30 word) :: 32 word) \<noteq> x"
proof
  assume "(ucast (ucast (x - k) :: 30 word) :: 32 word) = x"
  then have "take_bit 30 (x - k) = x" by (simp only: ucast_30_take_bit)
  then have "uint (take_bit 30 (x - k)) = uint x" by (rule arg_cong)
  moreover have "uint (take_bit 30 (x - k)) = uint (x - k) mod 1073741824"
  proof -
    have "uint (take_bit 30 (x - k)) = take_bit 30 (uint (x - k))"
      by (rule unsigned_take_bit_eq)
    also have "\<dots> = uint (x - k) mod 2 ^ 30" by (rule take_bit_eq_mod)
    finally show ?thesis by simp
  qed
  moreover have "uint (x - k) = (uint x - uint k) mod 4294967296"
    by (simp add: uint_word_ariths)
  ultimately have "((uint x - uint k) mod 4294967296) mod 1073741824 = uint x"
    by (simp only:)
  moreover have "((uint x - uint k) mod 4294967296) mod 1073741824 = (uint x - uint k) mod 1073741824"
    by (rule mod_mod_cancel) simp
  ultimately have e: "(uint x - uint k) mod 1073741824 = uint x" by (simp only:)
  then have "uint x mod 1073741824 = ((uint x - uint k) mod 1073741824) mod 1073741824"
    by (simp only:)
  then have "uint x mod 1073741824 = (uint x - uint k) mod 1073741824"
    by (simp only: mod_mod_trivial)
  then have "(1073741824 :: int) dvd uint x - (uint x - uint k)"
    by (simp only: mod_eq_dvd_iff)
  then have "(1073741824 :: int) dvd uint k" by simp
  then show False using assms by (simp add: dvd_eq_mod_eq_0)
qed

lemma truncated_tag_differs_4096:
  "(ucast (ucast (x - 4096 :: 32 word) :: 30 word) :: 32 word) \<noteq> x"
  by (rule truncated_tag_differs) simp

lemma truncated_tag_differs_8192:
  "(ucast (ucast (x - 8192 :: 32 word) :: 30 word) :: 32 word) \<noteq> x"
  by (rule truncated_tag_differs) simp

text \<open>No line of the invariant matches the address, in the set or in the victim cache.\<close>

lemma l1_index_of: "isL1 c \<Longrightarrow> index_of c a = unat (drop_bit 6 a AND (63 :: 32 word))"
  by (simp add: isL1_def index_of_def ctz_values)

lemma l1_tag_of: "isL1 c \<Longrightarrow> tag_of c a = a AND - 4096"
  by (simp add: isL1_def tag_of_def)

lemma l1_index_less: "isL1 c \<Longrightarrow> index_of c a < 64"
  by (simp add: l1_index_of l1_index_unat)

lemma l1_step_same:
  assumes "isL1 c" "index_of c a < 63"
  shows "index_of c (a + 64) = index_of c a + 1" and "tag_of c (a + 64) = tag_of c a"
  using assms l1_next_same [of a] by (simp_all add: l1_index_of l1_tag_of)

lemma l1_step_wrap:
  assumes "isL1 c" "index_of c a = 63"
  shows "index_of c (a + 64) = 0" and "tag_of c (a + 64) = tag_of c a + 4096"
  using assms l1_next_wrap [of a] by (simp_all add: l1_index_of l1_tag_of)

lemma victimScan_no_match:
  "k \<le> length q \<Longrightarrow> \<forall>b \<in> set (take k q). ucast (tag b) \<noteq> t
     \<Longrightarrow> victimScan k q t = (False, drop k q @ take k q)"
proof (induction k arbitrary: q)
  case 0
  then show ?case by simp
next
  case (Suc k)
  then obtain b rest where q: "q = b # rest" by (cases q) auto
  with Suc.prems have nb: "ucast (tag b) \<noteq> t" and k: "k \<le> length (rest @ [b])"
    and rest: "\<forall>x \<in> set (take k (rest @ [b])). ucast (tag x) \<noteq> t"
    by auto
  from Suc.IH [OF k rest] have "victimScan k (rest @ [b]) t = (False, drop k (rest @ [b]) @ take k (rest @ [b]))" .
  moreover from Suc.prems q have "k \<le> length rest" by simp
  ultimately show ?case using q nb by simp
qed

lemma checkVictimCache_no_match:
  assumes "\<forall>b \<in> set (victimCache c). ucast (tag b) \<noteq> t"
  shows "checkVictimCache c t = (False, c)"
proof -
  have "victimScan (length (victimCache c)) (victimCache c) t
      = (False, drop (length (victimCache c)) (victimCache c) @ take (length (victimCache c)) (victimCache c))"
    using assms by (intro victimScan_no_match) simp_all
  then show ?thesis by (simp add: checkVictimCache_def)
qed

lemma cascade_no_set_match:
  assumes "cascadeInv c a" "j < 8"
  shows "\<not> tagMatch (sets c ! index_of c a ! j) (tag_of c a)"
proof (cases "j = 0")
  case True
  show ?thesis
  proof
    assume m: "tagMatch (sets c ! index_of c a ! j) (tag_of c a)"
    with True have v: "valid (sets c ! index_of c a ! 0)"
      and e: "ucast (tag (sets c ! index_of c a ! 0)) = tag_of c a"
      by (simp_all add: tagMatch_def)
    from assms have "index_of c a < 64" by (simp add: cascadeInv_def l1_index_less)
    with assms v have "tag (sets c ! index_of c a ! 0) = ucast (tag_of c a - 4096)"
      by (simp add: cascadeInv_def)
    with e show False by (simp add: truncated_tag_differs_4096)
  qed
next
  case False
  from assms have "index_of c a < numSets c" "ways c = 8" "cacheInv c"
    by (simp_all add: cascadeInv_def isL1_def l1_index_less)
  with False assms(2) have "\<not> valid (sets c ! index_of c a ! j)"
    by (simp add: cacheInv_def)
  then show ?thesis by (simp add: tagMatch_def)
qed

lemma cascade_not_cached:
  assumes "cascadeInv c a"
  shows "\<not> isAlreadyCached c (index_of c a) (tag_of c a)"
proof -
  from assms have w: "ways c = 8" and len: "length (sets c ! index_of c a) = 8"
    by (simp_all add: cascadeInv_def isL1_def cacheInv_def l1_index_less)
  have "\<forall>b \<in> set (take (ways c) (sets c ! index_of c a)). \<not> tagMatch b (tag_of c a)"
  proof
    fix b assume "b \<in> set (take (ways c) (sets c ! index_of c a))"
    then obtain j where "j < 8" "b = sets c ! index_of c a ! j"
      using w len by (auto simp: in_set_conv_nth)
    then show "\<not> tagMatch b (tag_of c a)"
      using cascade_no_set_match [OF assms] by simp
  qed
  then show ?thesis by (simp add: isAlreadyCached_def firstMatch_None)
qed

lemma cascade_no_victim_match:
  assumes "cascadeInv c a"
  shows "checkVictimCache c (tag_of c a) = (False, c)"
proof (rule checkVictimCache_no_match, rule ballI)
  fix b assume b: "b \<in> set (victimCache c)"
  from assms obtain old new where "victimCache c = old @ new"
    and "\<forall>b \<in> set old. tag b = ucast (tag_of c a - 8192)"
    and "\<forall>b \<in> set new. tag b = ucast (tag_of c a - 4096)"
    unfolding cascadeInv_def by blast
  with b have "tag b = ucast (tag_of c a - 8192) \<or> tag b = ucast (tag_of c a - 4096)"
    by auto
  then show "ucast (tag b) \<noteq> tag_of c a"
    using truncated_tag_differs_4096 [of "tag_of c a"] truncated_tag_differs_8192 [of "tag_of c a"]
    by auto
qed

lemma cascadeInv_cout [simp]: "cascadeInv (c\<lparr>cout := e\<rparr>) a = cascadeInv c a"
  by (simp add: cascadeInv_def isL1_def index_of_def tag_of_def)

text \<open>What \<open>missFill\<close> leaves behind when it replaces way 0.\<close>

lemma missFill_shape:
  assumes inv: "cacheInv c" and s: "s < numSets c" and v: "0 < victimCacheSize c"
  shows "\<exists>c' nb vb. missFill c s t w = Inr c'
      \<and> sameGeometry c c'
      \<and> sets c' = (sets c)[s := (sets c ! s)[0 := nb]]
      \<and> valid nb \<and> tag nb = ucast t
      \<and> tag vb = tag (sets c ! s ! 0)
      \<and> victimCache c' =
          (if valid (sets c ! s ! 0)
           then (if victimCacheSize c \<le> length (victimCache c) then tl (victimCache c)
                 else victimCache c) @ [vb]
           else victimCache c)"
proof -
  let ?b0 = "sets c ! s ! 0"
  let ?q = "victimCache c"
  define cur where "cur = (if valid ?b0 \<and> dirty ?b0 then ?b0\<lparr>dirty := False\<rparr> else ?b0)"
  define nb where "nb = cur\<lparr>valid := True, tag := ucast t, dirty := w\<rparr>"
  define q' where "q' = (if valid ?b0
      then (if victimCacheSize c \<le> length ?q then tl ?q else ?q) @ [cur] else ?q)"
  from inv s have ls: "s < length (sets c)" and lr: "0 < length (sets c ! s)" and w0: "0 < ways c"
    by (simp_all add: cacheInv_def)
  have g: "getPseudoLRU (c\<lparr>cout := cout c @ [EvMiss]\<rparr>) s = 0"
    using inv s by (simp add: getPseudoLRU_0)
  have qne: "victimCacheSize c \<le> length ?q \<Longrightarrow> ?q \<noteq> []"
    using v by auto
  have main: "\<exists>c'. missFill c s t w = Inr c' \<and> sameGeometry c c'
      \<and> sets c' = (sets c)[s := (sets c ! s)[0 := nb]] \<and> victimCache c' = q'"
  proof (cases "valid ?b0")
    case False
    then show ?thesis
      using g w0 ls lr
      by (simp add: missFill_def Let_def sameGeometry_def setBlock_def updatePseudoLRU_def
          cur_def nb_def q'_def)
  next
    case True
    show ?thesis
    proof (cases "dirty ?b0")
      case nd: False
      show ?thesis
      proof (cases "victimCacheSize c \<le> length ?q")
        case full: True
        then obtain x r where q: "?q = x # r" using qne by (cases ?q) auto
        show ?thesis
          using g w0 ls lr True nd full q
          by (simp add: missFill_def Let_def sameGeometry_def setBlock_def updatePseudoLRU_def
              addToVictimCache_def cur_def nb_def q'_def)
      next
        case nf: False
        show ?thesis
          using g w0 ls lr True nd nf
          by (simp add: missFill_def Let_def sameGeometry_def setBlock_def updatePseudoLRU_def
              addToVictimCache_def cur_def nb_def q'_def)
      qed
    next
      case d: True
      show ?thesis
      proof (cases "victimCacheSize c \<le> length ?q")
        case full: True
        then obtain x r where q: "?q = x # r" using qne by (cases ?q) auto
        show ?thesis
          using g w0 ls lr True d full q
          by (simp add: missFill_def Let_def sameGeometry_def setBlock_def updatePseudoLRU_def
              addToVictimCache_def writeBack_def cur_def nb_def q'_def)
      next
        case nf: False
        show ?thesis
          using g w0 ls lr True d nf
          by (simp add: missFill_def Let_def sameGeometry_def setBlock_def updatePseudoLRU_def
              addToVictimCache_def writeBack_def cur_def nb_def q'_def)
      qed
    qed
  qed
  then obtain c' where c': "missFill c s t w = Inr c'" "sameGeometry c c'"
    "sets c' = (sets c)[s := (sets c ! s)[0 := nb]]" "victimCache c' = q'"
    by blast
  have n1: "valid nb" and n2: "tag nb = ucast t" by (simp_all add: nb_def)
  have v1: "tag cur = tag ?b0" by (simp add: cur_def)
  from c' n1 n2 v1 show ?thesis
    unfolding q'_def by blast
qed

lemma set_tl_subset: "set (tl xs) \<subseteq> set xs"
  by (cases xs) auto

lemma victim_step_length:
  assumes "length q \<le> 8"
    and "q' = (if vi then (if 8 \<le> length q then tl q else q) @ [vb] else q)"
  shows "length q' \<le> 8"
  using assms by (cases q) auto

lemma victim_step_split:
  fixes q :: "CacheBlock list"
  assumes q: "q = old @ new"
    and old: "\<forall>b \<in> set old. tag b = x8"
    and new: "\<forall>b \<in> set new. tag b = x4"
    and vb: "vi \<Longrightarrow> tag vb = x4"
    and q': "q' = (if vi then (if 8 \<le> length q then tl q else q) @ [vb] else q)"
    and ph: "old = [] \<or> (allv \<and> min i 8 \<le> length new)"
    and vo: "vi \<or> old = []"
  shows "\<exists>old' new'. q' = old' @ new' \<and> (\<forall>b \<in> set old'. tag b = x8)
      \<and> (\<forall>b \<in> set new'. tag b = x4)
      \<and> (old' = [] \<or> (allv \<and> min (Suc i) 8 \<le> length new'))"
proof (cases vi)
  case False
  with vo have e: "old = []" by simp
  show ?thesis
  proof (intro exI conjI)
    show "q' = [] @ new" using False q q' e by simp
    show "\<forall>b \<in> set ([] :: CacheBlock list). tag b = x8" by simp
    show "\<forall>b \<in> set new. tag b = x4" by (rule new)
    show "([] :: CacheBlock list) = [] \<or> (allv \<and> min (Suc i) 8 \<le> length new)" by simp
  qed
next
  case True
  then have t: "tag vb = x4" by (rule vb)
  have nv: "\<forall>b \<in> set (new @ [vb]). tag b = x4" using new t by simp
  show ?thesis
  proof (cases "8 \<le> length q")
    case nf: False
    show ?thesis
    proof (intro exI conjI)
      show "q' = old @ (new @ [vb])" using True nf q q' by simp
      show "\<forall>b \<in> set old. tag b = x8" by (rule old)
      show "\<forall>b \<in> set (new @ [vb]). tag b = x4" by (rule nv)
      show "old = [] \<or> (allv \<and> min (Suc i) 8 \<le> length (new @ [vb]))"
        using ph by auto
    qed
  next
    case full: True
    show ?thesis
    proof (cases "old = []")
      case e: True
      show ?thesis
      proof (intro exI conjI)
        show "q' = [] @ (tl new @ [vb])" using True full q q' e by simp
        show "\<forall>b \<in> set ([] :: CacheBlock list). tag b = x8" by simp
        show "\<forall>b \<in> set (tl new @ [vb]). tag b = x4"
          using new t set_tl_subset [of new] by auto
        show "([] :: CacheBlock list) = [] \<or> (allv \<and> min (Suc i) 8 \<le> length (tl new @ [vb]))"
          by simp
      qed
    next
      case ne: False
      show ?thesis
      proof (intro exI conjI)
        show "q' = tl old @ (new @ [vb])" using True full q q' ne by simp
        show "\<forall>b \<in> set (tl old). tag b = x8"
          using old set_tl_subset [of old] by auto
        show "\<forall>b \<in> set (new @ [vb]). tag b = x4" by (rule nv)
        show "tl old = [] \<or> (allv \<and> min (Suc i) 8 \<le> length (new @ [vb]))"
          using ph ne by auto
      qed
    qed
  qed
qed

lemma victim_step_all_new:
  fixes q :: "CacheBlock list"
  assumes new: "\<forall>b \<in> set q. tag b = x4"
    and vb: "vi \<Longrightarrow> tag vb = x4"
    and q': "q' = (if vi then (if 8 \<le> length q then tl q else q) @ [vb] else q)"
  shows "\<forall>b \<in> set q'. tag b = x4"
proof (cases vi)
  case False
  with q' new show ?thesis by simp
next
  case True
  then have t: "tag vb = x4" by (rule vb)
  have "set q' \<subseteq> set q \<union> {vb}"
    using True set_tl_subset [of q] by (auto simp: q')
  with new t show ?thesis by auto
qed

text \<open>The fill of a miss at \<open>a\<close> establishes the invariant for the next line.\<close>

lemma cascadeInvI:
  assumes "isL1 c" "cacheInv c" "index_of c a = i" "tag_of c a = t"
    and "\<forall>s < 64. valid (sets c ! s ! 0) \<longrightarrow> tag (sets c ! s ! 0) = ucast (if s < i then t else t - 4096)"
    and "length (victimCache c) \<le> 8"
    and "victimCache c = old @ new"
    and "\<forall>b \<in> set old. tag b = ucast (t - 8192)"
    and "\<forall>b \<in> set new. tag b = ucast (t - 4096)"
    and "(victimCache c = [] \<and> (\<forall>s < 64. i \<le> s \<longrightarrow> \<not> valid (sets c ! s ! 0)))
         \<or> ((\<forall>s < i. valid (sets c ! s ! 0))
             \<and> (old = [] \<or> ((\<forall>s < 64. valid (sets c ! s ! 0)) \<and> min i 8 \<le> length new)))"
  shows "cascadeInv c a"
  unfolding cascadeInv_def assms(3,4)
  using assms(1,2,5-10) by blast

lemma sameGeometry_index_tag:
  assumes "sameGeometry c c'"
  shows "index_of c' x = index_of c x" and "tag_of c' x = tag_of c x" and "isL1 c' = isL1 c"
  using assms by (simp_all add: sameGeometry_def index_of_def tag_of_def isL1_def)

lemma cascade_step:
  assumes inv: "cascadeInv c a"
  shows "\<exists>c'. missFill c (index_of c a) (tag_of c a) w = Inr c' \<and> cascadeInv c' (a + 64)"
proof -
  let ?i = "index_of c a" and ?t = "tag_of c a"
  let ?q = "victimCache c"
  let ?vi = "valid (sets c ! ?i ! 0)"
  let ?allv = "\<forall>s < 64. valid (sets c ! s ! 0)"
  from inv have l1: "isL1 c" and ci: "cacheInv c" and len: "length ?q \<le> 8"
    and I2: "\<forall>s < 64. valid (sets c ! s ! 0) \<longrightarrow>
        tag (sets c ! s ! 0) = ucast (if s < ?i then ?t else ?t - 4096)"
    unfolding cascadeInv_def by blast+
  from inv obtain old new where q: "?q = old @ new"
    and old: "\<forall>b \<in> set old. tag b = ucast (?t - 8192)"
    and new: "\<forall>b \<in> set new. tag b = ucast (?t - 4096)"
    and phase: "(?q = [] \<and> (\<forall>s < 64. ?i \<le> s \<longrightarrow> \<not> valid (sets c ! s ! 0)))
         \<or> ((\<forall>s < ?i. valid (sets c ! s ! 0))
             \<and> (old = [] \<or> (?allv \<and> min ?i 8 \<le> length new)))"
    unfolding cascadeInv_def by blast
  from l1 have n: "numSets c = 64" and vs: "victimCacheSize c = 8" and w: "ways c = 8"
    by (simp_all add: isL1_def)
  have i64: "?i < 64" using l1 by (rule l1_index_less)
  then have s: "?i < numSets c" by (simp add: n)
  have v0: "0 < victimCacheSize c" by (simp add: vs)
  from missFill_shape [OF ci s v0, of ?t w] obtain c' nb vb where
    mf: "missFill c ?i ?t w = Inr c'" and geo: "sameGeometry c c'"
    and sets': "sets c' = (sets c)[?i := (sets c ! ?i)[0 := nb]]"
    and nbv: "valid nb" and nbt: "tag nb = ucast ?t"
    and vbt: "tag vb = tag (sets c ! ?i ! 0)"
    and vq: "victimCache c' = (if ?vi then (if victimCacheSize c \<le> length ?q then tl ?q else ?q) @ [vb] else ?q)"
    by blast
  have l1': "isL1 c'" using geo l1 by (simp add: sameGeometry_index_tag)
  have ci': "cacheInv c'" using ci s mf by (rule cacheInv_missFill)
  from ci n w have ls: "length (sets c) = 64" and lr: "length (sets c ! ?i) = 8"
    using i64 by (simp_all add: cacheInv_def)
  have F1: "sets c' ! s ! 0 = (if s = ?i then nb else sets c ! s ! 0)" if "s < 64" for s
    using that ls lr by (simp add: sets' nth_list_update)
  have vq': "victimCache c' = (if ?vi then (if 8 \<le> length ?q then tl ?q else ?q) @ [vb] else ?q)"
    using vq by (simp only: vs)
  have vb4: "?vi \<Longrightarrow> tag vb = ucast (?t - 4096)"
    using I2 i64 vbt by simp
  have len': "length (victimCache c') \<le> 8"
    using len vq' by (rule victim_step_length)
  show ?thesis
  proof (cases "?i < 63")
    case True
    have ix: "index_of c' (a + 64) = Suc ?i" and tx: "tag_of c' (a + 64) = ?t"
      using l1_step_same [OF l1 True] geo by (simp_all add: sameGeometry_index_tag)
    have I2': "\<forall>s < 64. valid (sets c' ! s ! 0) \<longrightarrow>
        tag (sets c' ! s ! 0) = ucast (if s < Suc ?i then ?t else ?t - 4096)"
    proof (intro allI impI)
      fix s assume s64: "s < 64" and v: "valid (sets c' ! s ! 0)"
      show "tag (sets c' ! s ! 0) = ucast (if s < Suc ?i then ?t else ?t - 4096)"
      proof (cases "s = ?i")
        case True
        then show ?thesis using F1 [OF s64] nbt by simp
      next
        case False
        with v F1 [OF s64] have "valid (sets c ! s ! 0)" by simp
        with I2 s64 have "tag (sets c ! s ! 0) = ucast (if s < ?i then ?t else ?t - 4096)" by blast
        moreover from False have "(s < Suc ?i) = (s < ?i)" by auto
        ultimately show ?thesis using False F1 [OF s64] by simp
      qed
    qed
    have ph: "old = [] \<or> (?allv \<and> min ?i 8 \<le> length new)"
      using phase q by auto
    have vo: "?vi \<or> old = []"
      using phase q i64 by auto
    from victim_step_split [OF q old new vb4 vq' ph vo] obtain old' new' where
      q2: "victimCache c' = old' @ new'"
      and old2: "\<forall>b \<in> set old'. tag b = ucast (?t - 8192)"
      and new2: "\<forall>b \<in> set new'. tag b = ucast (?t - 4096)"
      and ph2: "old' = [] \<or> (?allv \<and> min (Suc ?i) 8 \<le> length new')"
      by blast
    have phase': "(victimCache c' = [] \<and> (\<forall>s < 64. Suc ?i \<le> s \<longrightarrow> \<not> valid (sets c' ! s ! 0)))
         \<or> ((\<forall>s < Suc ?i. valid (sets c' ! s ! 0))
             \<and> (old' = [] \<or> ((\<forall>s < 64. valid (sets c' ! s ! 0)) \<and> min (Suc ?i) 8 \<le> length new')))"
    proof (cases "?q = [] \<and> (\<forall>s < 64. ?i \<le> s \<longrightarrow> \<not> valid (sets c ! s ! 0))")
      case A: True
      with i64 have "\<not> ?vi" by simp
      with A vq' have "victimCache c' = []" by simp
      moreover have "\<forall>s < 64. Suc ?i \<le> s \<longrightarrow> \<not> valid (sets c' ! s ! 0)"
        using A F1 by auto
      ultimately show ?thesis by blast
    next
      case False
      with phase have B: "\<forall>s < ?i. valid (sets c ! s ! 0)" by blast
      have b1: "\<forall>s < Suc ?i. valid (sets c' ! s ! 0)"
      proof (intro allI impI)
        fix s assume "s < Suc ?i"
        then have "s < 64" "s = ?i \<or> s < ?i" using i64 by auto
        then show "valid (sets c' ! s ! 0)" using F1 [of s] nbv B by auto
      qed
      have b2: "?allv \<Longrightarrow> \<forall>s < 64. valid (sets c' ! s ! 0)"
        using F1 nbv by auto
      from ph2 b2 have "old' = [] \<or> ((\<forall>s < 64. valid (sets c' ! s ! 0)) \<and> min (Suc ?i) 8 \<le> length new')"
        by blast
      with b1 show ?thesis by blast
    qed
    have "cascadeInv c' (a + 64)"
      using l1' ci' ix tx I2' len' q2 old2 new2 phase' by (rule cascadeInvI)
    with mf show ?thesis by blast
  next
    case False
    with i64 have i63: "?i = 63" by simp
    have ix: "index_of c' (a + 64) = 0" and tx: "tag_of c' (a + 64) = ?t + 4096"
      using l1_step_wrap [OF l1 i63] geo by (simp_all add: sameGeometry_index_tag)
    have t4: "(?t + 4096) - 4096 = ?t" and t8: "(?t + 4096) - 8192 = ?t - 4096"
      by simp_all
    have I2': "\<forall>s < 64. valid (sets c' ! s ! 0) \<longrightarrow>
        tag (sets c' ! s ! 0) = ucast (if s < 0 then ?t + 4096 else (?t + 4096) - 4096)"
    proof (intro allI impI)
      fix s assume s64: "s < 64" and v: "valid (sets c' ! s ! 0)"
      show "tag (sets c' ! s ! 0) = ucast (if s < 0 then ?t + 4096 else (?t + 4096) - 4096)"
      proof (cases "s = ?i")
        case True
        then show ?thesis using F1 [OF s64] nbt by (simp add: t4)
      next
        case ne: False
        with v F1 [OF s64] have "valid (sets c ! s ! 0)" by simp
        with I2 s64 have "tag (sets c ! s ! 0) = ucast (if s < ?i then ?t else ?t - 4096)" by blast
        moreover from ne s64 i63 have "s < ?i" by simp
        ultimately show ?thesis using ne F1 [OF s64] by (simp add: t4)
      qed
    qed
    have oe: "old = []"
    proof (rule ccontr)
      assume ne: "old \<noteq> []"
      with phase q have "min ?i 8 \<le> length new" by auto
      with i63 have "8 \<le> length new" by simp
      with len q ne show False by (cases old) auto
    qed
    with q new have allq: "\<forall>b \<in> set ?q. tag b = ucast (?t - 4096)" by simp
    have old2: "\<forall>b \<in> set (victimCache c'). tag b = ucast ((?t + 4096) - 8192)"
      unfolding t8 using allq vb4 vq' by (rule victim_step_all_new)
    have q2: "victimCache c' = victimCache c' @ []" by simp
    have new2: "\<forall>b \<in> set ([] :: CacheBlock list). tag b = ucast ((?t + 4096) - 4096)" by simp
    have phase': "(victimCache c' = [] \<and> (\<forall>s < 64. 0 \<le> s \<longrightarrow> \<not> valid (sets c' ! s ! 0)))
         \<or> ((\<forall>s < 0. valid (sets c' ! s ! 0))
             \<and> (victimCache c' = [] \<or> ((\<forall>s < 64. valid (sets c' ! s ! 0))
                   \<and> min 0 8 \<le> length ([] :: CacheBlock list))))"
    proof (cases "?q = [] \<and> (\<forall>s < 64. ?i \<le> s \<longrightarrow> \<not> valid (sets c ! s ! 0))")
      case A: True
      with i64 have "\<not> ?vi" by simp
      with A vq' have "victimCache c' = []" by simp
      then show ?thesis by simp
    next
      case nA: False
      with phase have B: "\<forall>s < ?i. valid (sets c ! s ! 0)" by blast
      have "\<forall>s < 64. valid (sets c' ! s ! 0)"
      proof (intro allI impI)
        fix s :: nat assume s64: "s < 64"
        then have "s = ?i \<or> s < ?i" using i63 by auto
        then show "valid (sets c' ! s ! 0)" using F1 [OF s64] nbv B by auto
      qed
      then show ?thesis by simp
    qed
    have "cascadeInv c' (a + 64)"
      using l1' ci' ix tx I2' len' q2 old2 new2 phase' by (rule cascadeInvI)
    with mf show ?thesis by blast
  qed
qed

lemma cascade_diverges:
  "cascadeInv c a \<Longrightarrow> accessCache n c a w = Inl OutOfFuel"
proof (induction n arbitrary: c a w)
  case 0
  show ?case by simp
next
  case (Suc n)
  let ?s = "index_of c a" and ?t = "tag_of c a"
  from Suc.prems have l1: "isL1 c" and ci: "cacheInv c"
    unfolding cascadeInv_def by blast+
  from l1 have s: "?s < numSets c" using l1_index_less [OF l1, of a] by (simp add: isL1_def)
  have p0: "predictWay c ?s ?t = 0" using ci s by (rule predictWay_0)
  have nm: "\<not> tagMatch (sets c ! ?s ! predictWay c ?s ?t) ?t"
    unfolding p0 using Suc.prems by (rule cascade_no_set_match) simp
  have cv: "checkVictimCache c ?t = (False, c)"
    using Suc.prems by (rule cascade_no_victim_match)
  from cascade_step [OF Suc.prems, of w] obtain c' where
    mf: "missFill c ?s ?t w = Inr c'" and inv': "cascadeInv c' (a + 64)"
    by blast
  from inv' have b: "blockSize c' = 64" by (simp add: cascadeInv_def isL1_def)
  have nc: "\<not> isAlreadyCached c' (index_of c' (a + 64)) (tag_of c' (a + 64))"
    using inv' by (rule cascade_not_cached)
  have "cascadeInv (c'\<lparr>cout := cout c' @ [EvPrefetch (a + 64)]\<rparr>) (a + 64)"
    using inv' by simp
  then have rec: "accessCache n (c'\<lparr>cout := cout c' @ [EvPrefetch (a + 64)]\<rparr>) (a + 64) False
      = Inl OutOfFuel"
    by (rule Suc.IH)
  have pf: "prefetchNextLine n c' a = Inl OutOfFuel"
    using nc rec by (simp add: prefetchNextLine.simps Let_def b)
  show ?case
    using nm cv mf pf by (simp add: accessCache.simps(2) Let_def)
qed

lemma cascadeInv_l1Cache: "cascadeInv l1Cache 100"
proof -
  have l1: "isL1 l1Cache"
    by (simp add: l1Cache_def Cache_ctor_def isL1_def ctz_values)
  have "ctor_defined 32768 64 8" by (simp add: ctor_defined_def)
  then have ci: "cacheInv l1Cache" unfolding l1Cache_def by (rule cacheInv_ctor)
  have inval: "\<not> valid (sets l1Cache ! s ! 0)" if "s < 64" for s
    using that by (simp add: l1Cache_def Cache_ctor_def emptyBlock_def)
  have vq: "victimCache l1Cache = []"
    by (simp add: l1Cache_def Cache_ctor_def)
  show ?thesis
  proof (rule cascadeInvI [where old = "[]" and new = "[]"])
    show "isL1 l1Cache" by (rule l1)
    show "cacheInv l1Cache" by (rule ci)
    show "index_of l1Cache 100 = index_of l1Cache 100" by (rule refl)
    show "tag_of l1Cache 100 = tag_of l1Cache 100" by (rule refl)
    show "\<forall>s < 64. valid (sets l1Cache ! s ! 0) \<longrightarrow> tag (sets l1Cache ! s ! 0)
        = ucast (if s < index_of l1Cache 100 then tag_of l1Cache 100 else tag_of l1Cache 100 - 4096)"
      using inval by blast
    show "length (victimCache l1Cache) \<le> 8" by (simp add: vq)
    show "victimCache l1Cache = [] @ []" by (simp add: vq)
    show "\<forall>b \<in> set []. tag b = ucast (tag_of l1Cache 100 - 8192)" by simp
    show "\<forall>b \<in> set []. tag b = ucast (tag_of l1Cache 100 - 4096)" by simp
    show "(victimCache l1Cache = [] \<and> (\<forall>s < 64. index_of l1Cache 100 \<le> s \<longrightarrow> \<not> valid (sets l1Cache ! s ! 0)))
         \<or> ((\<forall>s < index_of l1Cache 100. valid (sets l1Cache ! s ! 0))
             \<and> ([] = [] \<or> ((\<forall>s < 64. valid (sets l1Cache ! s ! 0))
                  \<and> min (index_of l1Cache 100) 8 \<le> length [])))"
      using inval vq by blast
  qed
qed

text \<open>
  Claim C3 fails on the code. The first access of the driver, a read of address 100 in the
  fresh first-level cache, misses and prefetches address 164, which misses and prefetches
  address 228, and so on through the whole address space and around it: the next line is
  never in its set and never in the victim cache. The call does not return: for every
  bound \<open>n\<close> on the depth of nested calls, the depth is used up before any result.
\<close>

theorem first_access_of_driver_never_returns:
  "reachable l1Cache l1Cache \<and> accessCache n l1Cache 100 False = Inl OutOfFuel"
  by (rule conjI [OF reachable.initial cascade_diverges [OF cascadeInv_l1Cache]])

end
